theory Spec2Isabelle
  imports Complex_Main
begin

section \<open>The video loader (readiness gate)\<close>

text \<open>
  The video loader is one closure over four module variables (\<open>player\<close>,
  \<open>videoLoadStartTime\<close>, \<open>isVideoReady\<close>, \<open>fallbackTimer\<close>) and the constant
  \<open>CONFIG\<close>. All of its work happens in callbacks of the browser's event loop, so the
  model is explicit state passing: the module variables, the class list of the container
  element, the browser's table of pending timers and the clock are fields of one record,
  and every source function is a function from state to state.

  Times are integer milliseconds, as \<open>Date.now()\<close> returns them. \<open>console\<close> output is
  not part of the model.
\<close>

record config =
  FALLBACK_TIMEOUT :: int
  MIN_DISPLAY_TIME :: int

definition CONFIG :: config where
  "CONFIG = \<lparr>FALLBACK_TIMEOUT = 5000, MIN_DISPLAY_TIME = 1500\<rparr>"

subsection \<open>Class lists\<close>

text \<open>A \<open>DOMTokenList\<close>: an ordered set of tokens.\<close>

type_synonym classList = "string list"

definition classList_add :: "string \<Rightarrow> classList \<Rightarrow> classList" where
  "classList_add c cl = (if c \<in> set cl then cl else cl @ [c])"

definition classList_remove :: "string \<Rightarrow> classList \<Rightarrow> classList" where
  "classList_remove c cl = removeAll c cl"

definition classList_contains :: "string \<Rightarrow> classList \<Rightarrow> bool" where
  "classList_contains c cl = (c \<in> set cl)"

subsection \<open>State\<close>

text \<open>
  The four closures handed to \<open>setTimeout\<close>: the delayed reveal of
  \<open>handleVideoReady\<close>, the settle step of \<open>brightenAndFadeOut\<close>, the fallback of
  \<open>setupFallbackTimeout\<close> and the forced reveal of \<open>useFallbackMethod\<close>.
\<close>

datatype callback = RevealCb | SettleCb | FallbackCb | ForcedCb

record timer =
  tid :: nat
  due :: int
  cb :: callback

text \<open>
  The calls that leave the module: \<open>classList.add\<close> on the container and
  \<open>clearTimeout\<close>. They are logged with the time of the call, so that a theorem can
  count them.
\<close>

datatype effect = AddClass string | ClearTimeout nat

record gate =
  now :: int
  player :: bool
  videoLoadStartTime :: "int option"
  isVideoReady :: bool
  fallbackTimer :: "nat option"
  container :: "classList option"
  timers :: "timer list"
  nextId :: nat
  effects :: "(int \<times> effect) list"
  readyPending :: bool
  listening :: bool
  errListening :: bool
  domListener :: bool
  visListener :: bool

text \<open>
  \<open>player\<close> is whether the module variable is non-null; \<open>container\<close> is the class list
  of \<open>.hero__video-container\<close>, \<open>None\<close> when \<open>querySelector\<close> finds no such element.
  \<open>readyPending\<close> says that the \<open>then\<close>/\<open>catch\<close> handlers sit on an unsettled
  \<open>player.ready()\<close> promise, \<open>listening\<close> that the \<open>play\<close>, \<open>bufferend\<close> and
  \<open>timeupdate\<close> handlers are registered, \<open>errListening\<close> that the \<open>error\<close> handler is,
  \<open>domListener\<close> and \<open>visListener\<close> that \<open>init\<close> registered its two document listeners.
  Timer ids are positive, as the browser hands them out, so the test
  \<open>if (fallbackTimer)\<close> of the source is the test that a handle is stored.
\<close>

definition fresh :: "int \<Rightarrow> classList option \<Rightarrow> gate" where
  "fresh t c = \<lparr>now = t, player = False, videoLoadStartTime = None, isVideoReady = False,
     fallbackTimer = None, container = c, timers = [], nextId = 1, effects = [],
     readyPending = False, listening = False, errListening = False,
     domListener = False, visListener = False\<rparr>"

record env =
  hasIframe :: bool
  vimeoLoaded :: bool
  ctorThrows :: bool
  prefersReducedMotion :: bool
  readyStateLoading :: bool

subsection \<open>Browser primitives\<close>

definition setTimeout :: "callback \<Rightarrow> int \<Rightarrow> gate \<Rightarrow> nat \<times> gate" where
  "setTimeout f d st =
     (nextId st,
      st\<lparr>timers := timers st @ [\<lparr>tid = nextId st, due = now st + max 0 d, cb = f\<rparr>],
         nextId := Suc (nextId st)\<rparr>)"

definition clearTimeout :: "nat \<Rightarrow> gate \<Rightarrow> gate" where
  "clearTimeout i st =
     st\<lparr>timers := filter (\<lambda>tm. tid tm \<noteq> i) (timers st),
        effects := effects st @ [(now st, ClearTimeout i)]\<rparr>"

definition addClass :: "string \<Rightarrow> gate \<Rightarrow> gate" where
  "addClass c st =
     (case container st of
        None \<Rightarrow> st
      | Some cl \<Rightarrow> st\<lparr>container := Some (classList_add c cl),
                      effects := effects st @ [(now st, AddClass c)]\<rparr>)"

subsection \<open>The functions of the module\<close>

definition handleVideoReady :: "config \<Rightarrow> gate \<Rightarrow> gate" where
  "handleVideoReady cfg st =
     (if isVideoReady st then st
      else
        let loadTime = now st - (case videoLoadStartTime st of None \<Rightarrow> 0 | Some s \<Rightarrow> s);
            minDisplayTime = max 0 (MIN_DISPLAY_TIME cfg - loadTime)
        in snd (setTimeout RevealCb minDisplayTime st))"

definition brightenAndFadeOut :: "gate \<Rightarrow> gate" where
  "brightenAndFadeOut st = snd (setTimeout SettleCb 5500 (addClass ''video-loaded'' st))"

definition setupFallbackTimeout :: "config \<Rightarrow> gate \<Rightarrow> gate" where
  "setupFallbackTimeout cfg st =
     (let (i, st') = setTimeout FallbackCb (FALLBACK_TIMEOUT cfg) st
      in st'\<lparr>fallbackTimer := Some i\<rparr>)"

definition clearFallbackTimeout :: "gate \<Rightarrow> gate" where
  "clearFallbackTimeout st =
     (case fallbackTimer st of
        None \<Rightarrow> st
      | Some i \<Rightarrow> (clearTimeout i st)\<lparr>fallbackTimer := None\<rparr>)"

definition useFallbackMethod :: "gate \<Rightarrow> gate" where
  "useFallbackMethod st = snd (setTimeout ForcedCb 3000 st)"

definition setupEventListeners :: "gate \<Rightarrow> gate" where
  "setupEventListeners st = st\<lparr>readyPending := True, errListening := True\<rparr>"

definition initVimeoPlayer :: "config \<Rightarrow> env \<Rightarrow> gate \<Rightarrow> gate" where
  "initVimeoPlayer cfg e st =
     (if \<not> hasIframe e \<or> container st = None then st
      else
        let st1 = st\<lparr>videoLoadStartTime := Some (now st)\<rparr>
        in if \<not> vimeoLoaded e then useFallbackMethod st1
           else if ctorThrows e then useFallbackMethod st1
           else setupFallbackTimeout cfg (setupEventListeners (st1\<lparr>player := True\<rparr>)))"

definition checkUserPreferences :: "env \<Rightarrow> gate \<Rightarrow> bool \<times> gate" where
  "checkUserPreferences e st =
     (if prefersReducedMotion e then (False, addClass ''video-loaded'' st) else (True, st))"

definition init :: "config \<Rightarrow> env \<Rightarrow> gate \<Rightarrow> gate" where
  "init cfg e st =
     (let (ok, st1) = checkUserPreferences e st
      in if \<not> ok then st1
         else (if readyStateLoading e then st1\<lparr>domListener := True\<rparr>
               else initVimeoPlayer cfg e st1)\<lparr>visListener := True\<rparr>)"

subsection \<open>Timer callbacks and the event loop\<close>

fun run_callback :: "config \<Rightarrow> callback \<Rightarrow> gate \<Rightarrow> gate" where
  "run_callback cfg RevealCb st =
     clearFallbackTimeout (brightenAndFadeOut (st\<lparr>isVideoReady := True\<rparr>))"
| "run_callback cfg SettleCb st = addClass ''video-fully-loaded'' st"
| "run_callback cfg FallbackCb st = (if \<not> isVideoReady st then handleVideoReady cfg st else st)"
| "run_callback cfg ForcedCb st = (if \<not> isVideoReady st then handleVideoReady cfg st else st)"

text \<open>
  The browser runs the pending timer with the earliest due time, the one created first
  among equals; \<open>timers\<close> is kept in creation order.
\<close>

fun earliest :: "timer list \<Rightarrow> timer option" where
  "earliest [] = None"
| "earliest (x # xs) =
     (case earliest xs of
        None \<Rightarrow> Some x
      | Some y \<Rightarrow> if due x \<le> due y then Some x else Some y)"

text \<open>The horizon \<open>None\<close> lets every pending timer run, \<open>Some t\<close> those due by \<open>t\<close>.\<close>

definition next_timer :: "int option \<Rightarrow> timer list \<Rightarrow> timer option" where
  "next_timer h ts =
     (case earliest ts of
        None \<Rightarrow> None
      | Some tm \<Rightarrow> (case h of None \<Rightarrow> Some tm
                    | Some t \<Rightarrow> if due tm \<le> t then Some tm else None))"

definition fire :: "config \<Rightarrow> timer \<Rightarrow> gate \<Rightarrow> gate" where
  "fire cfg tm st =
     run_callback cfg (cb tm) (st\<lparr>timers := remove1 tm (timers st), now := max (now st) (due tm)\<rparr>)"

fun weight :: "callback \<Rightarrow> nat" where
  "weight SettleCb = 1"
| "weight RevealCb = 2"
| "weight FallbackCb = 3"
| "weight ForcedCb = 3"

definition load :: "timer list \<Rightarrow> nat" where
  "load ts = sum_list (map (\<lambda>tm. weight (cb tm)) ts)"

lemma earliest_mem: "earliest ts = Some tm \<Longrightarrow> tm \<in> set ts"
  by (induction ts arbitrary: tm) (auto split: option.splits if_splits)

lemma next_timer_mem: "next_timer h ts = Some tm \<Longrightarrow> tm \<in> set ts"
  by (auto simp: next_timer_def earliest_mem split: option.splits if_splits)

lemma load_remove1: "tm \<in> set ts \<Longrightarrow> load (remove1 tm ts) + weight (cb tm) = load ts"
  by (induction ts) (auto simp: load_def)

lemma load_filter: "load (filter P ts) \<le> load ts"
  by (induction ts) (auto simp: load_def)

lemma load_append: "load (xs @ ys) = load xs + load ys"
  by (simp add: load_def)

lemma load_handleVideoReady: "load (timers (handleVideoReady cfg st)) \<le> load (timers st) + 2"
  by (simp add: handleVideoReady_def setTimeout_def Let_def load_append) (simp add: load_def)

lemma load_addClass: "timers (addClass c st) = timers st"
  by (simp add: addClass_def split: option.splits)

lemma load_clearFallbackTimeout: "load (timers (clearFallbackTimeout st)) \<le> load (timers st)"
  by (simp add: clearFallbackTimeout_def clearTimeout_def load_filter split: option.splits)

lemma load_brighten: "load (timers (brightenAndFadeOut st)) = load (timers st) + 1"
  by (simp add: brightenAndFadeOut_def setTimeout_def load_append load_addClass)
     (simp add: load_def)

lemma load_callback:
  "load (timers (run_callback cfg k st)) + 1 \<le> load (timers st) + weight k"
proof (cases k)
  case RevealCb
  have "load (timers (run_callback cfg RevealCb st))
          \<le> load (timers (brightenAndFadeOut (st\<lparr>isVideoReady := True\<rparr>)))"
    by (simp add: load_clearFallbackTimeout)
  then show ?thesis using RevealCb by (simp add: load_brighten)
next
  case SettleCb
  then show ?thesis by (simp add: load_addClass)
next
  case FallbackCb
  then show ?thesis using load_handleVideoReady [of cfg st] by simp
next
  case ForcedCb
  then show ?thesis using load_handleVideoReady [of cfg st] by simp
qed

lemma load_fire:
  assumes "tm \<in> set (timers st)"
  shows "load (timers (fire cfg tm st)) < load (timers st)"
proof -
  let ?st = "st\<lparr>timers := remove1 tm (timers st), now := max (now st) (due tm)\<rparr>"
  have "load (timers (fire cfg tm st)) + 1 \<le> load (timers ?st) + weight (cb tm)"
    unfolding fire_def by (rule load_callback)
  also have "\<dots> = load (timers st)"
    using load_remove1 [OF assms] by simp
  finally show ?thesis by simp
qed

function advance :: "config \<Rightarrow> int option \<Rightarrow> gate \<Rightarrow> gate" where
  "advance cfg h st =
     (case next_timer h (timers st) of
        None \<Rightarrow> (case h of None \<Rightarrow> st | Some t \<Rightarrow> st\<lparr>now := max (now st) t\<rparr>)
      | Some tm \<Rightarrow> advance cfg h (fire cfg tm st))"
  by pat_completeness auto
termination
  by (relation "measure (\<lambda>(cfg, h, st). load (timers st))")
     (auto dest!: next_timer_mem intro: load_fire)

declare advance.simps [simp del]

subsection \<open>External events\<close>

text \<open>
  What the browser and the Vimeo player deliver to the module after
  \<open>initVimeoPlayer\<close>: the \<open>player.ready()\<close> promise is fulfilled or rejected, the
  player emits \<open>play\<close>, \<open>bufferend\<close>, \<open>timeupdate\<close> (with \<open>data.seconds\<close>) or
  \<open>error\<close>, and time passes (\<open>Elapse t\<close>: the clock reaches \<open>t\<close> and every timer due
  by then has run). A handler that is not registered ignores its event.
\<close>

datatype event =
  ReadyResolved | ReadyRejected | Play | BufferEnd | TimeUpdate real | PlayerError | Elapse int

fun deliver :: "config \<Rightarrow> event \<Rightarrow> gate \<Rightarrow> gate" where
  "deliver cfg ReadyResolved st =
     (if readyPending st then st\<lparr>readyPending := False, listening := True\<rparr> else st)"
| "deliver cfg ReadyRejected st =
     (if readyPending st then useFallbackMethod (st\<lparr>readyPending := False\<rparr>) else st)"
| "deliver cfg Play st = (if listening st then handleVideoReady cfg st else st)"
| "deliver cfg BufferEnd st = (if listening st then handleVideoReady cfg st else st)"
| "deliver cfg (TimeUpdate seconds) st =
     (if listening st \<and> seconds > 0.5 \<and> \<not> isVideoReady st then handleVideoReady cfg st
      else st)"
| "deliver cfg PlayerError st = (if errListening st then useFallbackMethod st else st)"
| "deliver cfg (Elapse t) st = advance cfg (Some t) st"

definition run :: "config \<Rightarrow> event list \<Rightarrow> gate \<Rightarrow> gate" where
  "run cfg evs st = foldl (\<lambda>s ev. deliver cfg ev s) st evs"

text \<open>The gate as \<open>initVimeoPlayer\<close> leaves it when the page is at time \<open>s\<close>.\<close>

definition started :: "config \<Rightarrow> env \<Rightarrow> int \<Rightarrow> classList \<Rightarrow> gate" where
  "started cfg e s cl = initVimeoPlayer cfg e (fresh s (Some cl))"

definition hasClass :: "string \<Rightarrow> gate \<Rightarrow> bool" where
  "hasClass c st = (case container st of None \<Rightarrow> False | Some cl \<Rightarrow> classList_contains c cl)"

subsection \<open>Invariants of the event loop\<close>

lemma advance_done:
  "next_timer h (timers st) = None \<Longrightarrow>
   advance cfg h st = (case h of None \<Rightarrow> st | Some t \<Rightarrow> st\<lparr>now := max (now st) t\<rparr>)"
  by (subst advance.simps) simp

lemma advance_step:
  "next_timer h (timers st) = Some tm \<Longrightarrow> advance cfg h st = advance cfg h (fire cfg tm st)"
  by (subst advance.simps) simp

lemma advance_invariant:
  assumes fire: "\<And>tm st. P st \<Longrightarrow> tm \<in> set (timers st) \<Longrightarrow> P (fire cfg tm st)"
    and clock: "\<And>st t. P st \<Longrightarrow> P (st\<lparr>now := max (now st) t\<rparr>)"
    and init: "P st"
  shows "P (advance cfg h st)"
  using assms
proof (induction cfg h st rule: advance.induct)
  case (1 cfg h st)
  note fire = "1.prems"(1) and clock = "1.prems"(2)
  show ?case
  proof (cases "next_timer h (timers st)")
    case None
    then show ?thesis using "1.prems"(3) clock by (cases h) (simp_all add: advance_done)
  next
    case (Some tm)
    have mem: "tm \<in> set (timers st)" using Some by (rule next_timer_mem)
    have "P (fire cfg tm st)"
      using "1.prems"(3) mem by (rule fire)
    then have "P (advance cfg h (fire cfg tm st))" using Some fire clock by (intro "1.IH")
    then show ?thesis by (subst advance_step [OF Some])
  qed
qed

lemma run_invariant:
  assumes step: "\<And>ev st. P st \<Longrightarrow> P (deliver cfg ev st)"
    and init: "P st"
  shows "P (run cfg evs st)"
  using init unfolding run_def
  by (induction evs arbitrary: st) (simp_all add: step)

subsection \<open>The minimum display time\<close>

text \<open>
  The invariant behind the minimum display time: with the gate started at \<open>s\<close>, every
  pending delayed reveal is due no earlier than \<open>s + MIN_DISPLAY_TIME\<close>, and every
  \<open>video-loaded\<close> marker was applied no earlier than that.
\<close>

definition min_display_inv :: "config \<Rightarrow> int \<Rightarrow> gate \<Rightarrow> bool" where
  "min_display_inv cfg s st \<longleftrightarrow>
     videoLoadStartTime st = Some s \<and>
     (\<forall>tm \<in> set (timers st). cb tm = RevealCb \<longrightarrow> s + MIN_DISPLAY_TIME cfg \<le> due tm) \<and>
     (\<forall>(t, e) \<in> set (effects st). e = AddClass ''video-loaded'' \<longrightarrow> s + MIN_DISPLAY_TIME cfg \<le> t)"

lemma handleVideoReady_schedules:
  assumes "\<not> isVideoReady st" and "videoLoadStartTime st = Some s"
  shows "handleVideoReady cfg st =
           st\<lparr>timers := timers st @
                  [\<lparr>tid = nextId st,
                    due = now st + max 0 (MIN_DISPLAY_TIME cfg - (now st - s)),
                    cb = RevealCb\<rparr>],
              nextId := Suc (nextId st)\<rparr>"
  using assms by (simp add: handleVideoReady_def setTimeout_def Let_def)

lemma min_display_handleVideoReady:
  "min_display_inv cfg s st \<Longrightarrow> min_display_inv cfg s (handleVideoReady cfg st)"
  by (cases "isVideoReady st")
     (auto simp: min_display_inv_def handleVideoReady_def setTimeout_def Let_def)

lemma min_display_useFallbackMethod:
  "min_display_inv cfg s st \<Longrightarrow> min_display_inv cfg s (useFallbackMethod st)"
  by (auto simp: min_display_inv_def useFallbackMethod_def setTimeout_def)

lemma min_display_clock:
  "min_display_inv cfg s st \<Longrightarrow> min_display_inv cfg s (st\<lparr>now := t\<rparr>)"
  by (simp add: min_display_inv_def)

lemma min_display_fire:
  assumes "min_display_inv cfg s st" and "tm \<in> set (timers st)"
  shows "min_display_inv cfg s (fire cfg tm st)"
proof (cases "cb tm")
  case RevealCb
  then have "s + MIN_DISPLAY_TIME cfg \<le> due tm"
    using assms by (auto simp: min_display_inv_def)
  then show ?thesis using assms RevealCb
    by (auto simp: min_display_inv_def fire_def brightenAndFadeOut_def setTimeout_def
        addClass_def clearFallbackTimeout_def clearTimeout_def
        split: option.splits dest: notin_set_remove1)
next
  case SettleCb
  then show ?thesis using assms
    by (auto simp: min_display_inv_def fire_def addClass_def split: option.splits
        dest: notin_set_remove1)
next
  case FallbackCb
  have "min_display_inv cfg s (st\<lparr>timers := remove1 tm (timers st), now := max (now st) (due tm)\<rparr>)"
    using assms by (auto simp: min_display_inv_def dest: notin_set_remove1)
  then show ?thesis using FallbackCb by (simp add: fire_def min_display_handleVideoReady)
next
  case ForcedCb
  have "min_display_inv cfg s (st\<lparr>timers := remove1 tm (timers st), now := max (now st) (due tm)\<rparr>)"
    using assms by (auto simp: min_display_inv_def dest: notin_set_remove1)
  then show ?thesis using ForcedCb by (simp add: fire_def min_display_handleVideoReady)
qed

lemma min_display_advance:
  "min_display_inv cfg s st \<Longrightarrow> min_display_inv cfg s (advance cfg h st)"
  by (rule advance_invariant [where P = "min_display_inv cfg s"])
     (simp_all add: min_display_fire min_display_clock)

lemma min_display_flags:
  "min_display_inv cfg s (st\<lparr>readyPending := b\<rparr>) = min_display_inv cfg s st"
  "min_display_inv cfg s (st\<lparr>listening := b\<rparr>) = min_display_inv cfg s st"
  by (simp_all add: min_display_inv_def)

lemma min_display_deliver:
  "min_display_inv cfg s st \<Longrightarrow> min_display_inv cfg s (deliver cfg ev st)"
  by (cases ev)
     (simp_all add: min_display_handleVideoReady min_display_useFallbackMethod
        min_display_advance min_display_flags)

lemma min_display_run:
  "min_display_inv cfg s st \<Longrightarrow> min_display_inv cfg s (run cfg evs st)"
  by (rule run_invariant [where P = "min_display_inv cfg s"]) (simp_all add: min_display_deliver)

lemma min_display_started:
  "hasIframe e \<Longrightarrow> min_display_inv cfg s (started cfg e s cl)"
  by (simp add: started_def initVimeoPlayer_def fresh_def min_display_inv_def Let_def
      useFallbackMethod_def setupFallbackTimeout_def setupEventListeners_def setTimeout_def)



text \<open>A page on which the gate starts normally, for concrete runs.\<close>

definition desktop :: env where
  "desktop = \<lparr>hasIframe = True, vimeoLoaded = True, ctorThrows = False,
     prefersReducedMotion = False, readyStateLoading = False\<rparr>"

lemmas gate_eval =
  run_def started_def desktop_def CONFIG_def fresh_def initVimeoPlayer_def
  setupFallbackTimeout_def setupEventListeners_def useFallbackMethod_def setTimeout_def
  Let_def advance.simps next_timer_def fire_def handleVideoReady_def brightenAndFadeOut_def
  addClass_def clearFallbackTimeout_def clearTimeout_def classList_add_def

text \<open>
  C1. Let the gate start at time \<open>s\<close> and let any sequence of events follow (ready
  signals at any time, errors, time passing). In the state reached, a ready signal that
  passes the guard of \<open>handleVideoReady\<close> arms exactly one timer, the delayed reveal,
  with the delay \<open>max 0 (MIN_DISPLAY_TIME - elapsed)\<close>, where
  \<open>elapsed = now - videoLoadStartTime\<close>; every pending reveal is due at
  \<open>s + MIN_DISPLAY_TIME\<close> or later; and every \<open>video-loaded\<close> marker that has been
  applied was applied at \<open>s + MIN_DISPLAY_TIME\<close> or later.
\<close>

theorem handleVideoReady_min_display:
  assumes "hasIframe e" and "st = run cfg evs (started cfg e s cl)"
  shows "(\<not> isVideoReady st \<longrightarrow>
            handleVideoReady cfg st =
              st\<lparr>timers := timers st @
                     [\<lparr>tid = nextId st,
                       due = now st + max 0 (MIN_DISPLAY_TIME cfg - (now st - s)),
                       cb = RevealCb\<rparr>],
                 nextId := Suc (nextId st)\<rparr>) \<and>
         (\<forall>tm \<in> set (timers st). cb tm = RevealCb \<longrightarrow> s + MIN_DISPLAY_TIME cfg \<le> due tm) \<and>
         (\<forall>(t, x) \<in> set (effects st).
            x = AddClass ''video-loaded'' \<longrightarrow> s + MIN_DISPLAY_TIME cfg \<le> t)"
proof -
  have inv: "min_display_inv cfg s st"
    unfolding assms(2) using assms(1) by (intro min_display_run min_display_started)
  then have start: "videoLoadStartTime st = Some s"
    by (simp add: min_display_inv_def)
  have "\<not> isVideoReady st \<longrightarrow>
          handleVideoReady cfg st =
            st\<lparr>timers := timers st @
                   [\<lparr>tid = nextId st,
                     due = now st + max 0 (MIN_DISPLAY_TIME cfg - (now st - s)),
                     cb = RevealCb\<rparr>],
               nextId := Suc (nextId st)\<rparr>"
    using start by (simp add: handleVideoReady_schedules)
  then show ?thesis using inv unfolding min_display_inv_def by blast
qed

theorem handleVideoReady_min_display_witness:
  "hasIframe desktop \<and>
   \<not> isVideoReady (run CONFIG [ReadyResolved, Elapse 200] (started CONFIG desktop 0 [])) \<and>
   map due (timers (handleVideoReady CONFIG
       (run CONFIG [ReadyResolved, Elapse 200] (started CONFIG desktop 0 [])))) = [5000, 1500] \<and>
   (1500, AddClass ''video-loaded'') \<in> set (effects
       (run CONFIG [ReadyResolved, Elapse 200, Play, Elapse 1500] (started CONFIG desktop 0 []))) \<and>
   0 + MIN_DISPLAY_TIME CONFIG \<le> 1500"
proof -
  have e: "hasIframe desktop" by (simp add: desktop_def)
  note a = handleVideoReady_min_display [OF e refl, of CONFIG "[ReadyResolved, Elapse 200]" 0 "[]"]
  note b = handleVideoReady_min_display
    [OF e refl, of CONFIG "[ReadyResolved, Elapse 200, Play, Elapse 1500]" 0 "[]"]
  have nr: "\<not> isVideoReady (run CONFIG [ReadyResolved, Elapse 200] (started CONFIG desktop 0 []))"
    by (simp add: gate_eval)
  have m: "(1500, AddClass ''video-loaded'') \<in> set (effects
       (run CONFIG [ReadyResolved, Elapse 200, Play, Elapse 1500] (started CONFIG desktop 0 [])))"
    by (simp add: gate_eval)
  have t: "map due (timers (run CONFIG [ReadyResolved, Elapse 200] (started CONFIG desktop 0 [])))
             = [5000]"
    by (simp add: gate_eval)
  have "map due (timers (handleVideoReady CONFIG
       (run CONFIG [ReadyResolved, Elapse 200] (started CONFIG desktop 0 [])))) = [5000, 1500]"
    using a nr t by (simp add: gate_eval)
  moreover have "0 + MIN_DISPLAY_TIME CONFIG \<le> 1500"
    using b m by blast
  ultimately show ?thesis using e nr m by blast
qed

subsection \<open>Two ready signals in the same tick\<close>

text \<open>
  C2. The guard of \<open>handleVideoReady\<close> reads \<open>isVideoReady\<close>, which only the delayed
  callback sets. The gate starts at 0 and the player is ready; at 200 ms the player emits
  \<open>play\<close> and \<open>bufferend\<close>, that is \<open>handleVideoReady\<close> runs twice before any delayed
  callback. Both calls pass the guard and arm a reveal: \<open>video-loaded\<close> is applied twice
  at 1500 ms and \<open>video-fully-loaded\<close> twice at 7000 ms.
\<close>

theorem double_signal_reveals_twice:
  "effects (advance CONFIG (Some 8000)
      (handleVideoReady CONFIG (handleVideoReady CONFIG
         (run CONFIG [ReadyResolved, Elapse 200] (started CONFIG desktop 0 []))))) =
     [(1500, AddClass ''video-loaded''), (1500, ClearTimeout 1),
      (1500, AddClass ''video-loaded''),
      (7000, AddClass ''video-fully-loaded''),
      (7000, AddClass ''video-fully-loaded'')]"
  by (simp add: gate_eval)

subsection \<open>No ready signal\<close>

lemma started_desktop_timers:
  "timers (started CONFIG desktop s cl) = [\<lparr>tid = 1, due = s + 5000, cb = FallbackCb\<rparr>]"
  by (simp add: gate_eval)

lemma fallback_fired_timers:
  "timers (fire CONFIG \<lparr>tid = 1, due = s + 5000, cb = FallbackCb\<rparr>
             (started CONFIG desktop s cl)) =
     [\<lparr>tid = 2, due = s + 5000, cb = RevealCb\<rparr>]"
  by (simp add: gate_eval)

lemma no_signal_before_timeout:
  "effects (run CONFIG [Elapse (s + 4999)] (started CONFIG desktop s cl)) = []"
  by (simp add: gate_eval)

lemma no_signal_at_timeout:
  "effects (run CONFIG [Elapse (s + 5000)] (started CONFIG desktop s cl)) =
     [(s + 5000, AddClass ''video-loaded''), (s + 5000, ClearTimeout 1)]"
  by (simp add: gate_eval)

text \<open>
  C5. The gate starts at \<open>s\<close> and no ready signal arrives. The only pending timer is the
  fallback, due at \<open>s + 5000\<close>; when it fires, \<open>handleVideoReady\<close> arms the reveal with
  delay 0, that is due at \<open>s + 5000\<close> too; nothing has been applied to the container by
  \<open>s + 4999\<close>, and at \<open>s + 5000\<close> the \<open>video-loaded\<close> marker is applied, which is within
  \<open>FALLBACK_TIMEOUT + MIN_DISPLAY_TIME\<close> of the start.
\<close>

theorem fallback_reveal_at_timeout:
  "timers (started CONFIG desktop s cl) = [\<lparr>tid = 1, due = s + 5000, cb = FallbackCb\<rparr>] \<and>
   timers (fire CONFIG \<lparr>tid = 1, due = s + 5000, cb = FallbackCb\<rparr>
             (started CONFIG desktop s cl)) =
     [\<lparr>tid = 2, due = s + 5000, cb = RevealCb\<rparr>] \<and>
   effects (run CONFIG [Elapse (s + 4999)] (started CONFIG desktop s cl)) = [] \<and>
   effects (run CONFIG [Elapse (s + 5000)] (started CONFIG desktop s cl)) =
     [(s + 5000, AddClass ''video-loaded''), (s + 5000, ClearTimeout 1)] \<and>
   s + 5000 \<le> s + FALLBACK_TIMEOUT CONFIG + MIN_DISPLAY_TIME CONFIG"
  using started_desktop_timers [of s cl] fallback_fired_timers [of s cl]
    no_signal_before_timeout [of s cl] no_signal_at_timeout [of s cl]
  by (simp add: CONFIG_def)

theorem fallback_reveal_at_timeout_witness:
  "effects (run CONFIG [Elapse 4999] (started CONFIG desktop 0 [])) = [] \<and>
   effects (run CONFIG [Elapse 5000] (started CONFIG desktop 0 [])) =
     [(5000, AddClass ''video-loaded''), (5000, ClearTimeout 1)] \<and>
   container (run CONFIG [Elapse 5000] (started CONFIG desktop 0 [])) = Some [''video-loaded'']"
proof -
  have "container (run CONFIG [Elapse 5000] (started CONFIG desktop 0 [])) =
          Some [''video-loaded'']"
    by (simp add: gate_eval)
  then show ?thesis
    using fallback_reveal_at_timeout [of 0 "[]"] by simp
qed

subsection \<open>Reveal and settle\<close>

lemma brightenAndFadeOut_container:
  "brightenAndFadeOut (st\<lparr>container := Some cl\<rparr>) =
     st\<lparr>container := Some (classList_add ''video-loaded'' cl),
        effects := effects st @ [(now st, AddClass ''video-loaded'')],
        timers := timers st @ [\<lparr>tid = nextId st, due = now st + 5500, cb = SettleCb\<rparr>],
        nextId := Suc (nextId st)\<rparr>"
  by (simp add: brightenAndFadeOut_def addClass_def setTimeout_def)

lemma settle_container:
  "run_callback cfg SettleCb (st\<lparr>container := Some cl\<rparr>) =
     st\<lparr>container := Some (classList_add ''video-fully-loaded'' cl),
        effects := effects st @ [(now st, AddClass ''video-fully-loaded'')]\<rparr>"
  by (simp add: addClass_def)

lemma signal_at_200_effects:
  "map (\<lambda>t. effects (run CONFIG [ReadyResolved, Elapse 200, Play, Elapse t]
                       (started CONFIG desktop 0 [])))
     [1499, 1500, 6999, 7000] =
   [[],
    [(1500, AddClass ''video-loaded''), (1500, ClearTimeout 1)],
    [(1500, AddClass ''video-loaded''), (1500, ClearTimeout 1)],
    [(1500, AddClass ''video-loaded''), (1500, ClearTimeout 1),
     (7000, AddClass ''video-fully-loaded'')]]"
  by (simp add: gate_eval)

lemma signal_at_200_container:
  "map (\<lambda>t. container (run CONFIG [ReadyResolved, Elapse 200, Play, Elapse t]
                         (started CONFIG desktop 0 [])))
     [1499, 1500, 6999, 7000] =
   [Some [], Some [''video-loaded''], Some [''video-loaded''],
    Some [''video-loaded'', ''video-fully-loaded'']]"
  by (simp add: gate_eval)

text \<open>
  C8. \<open>brightenAndFadeOut\<close> applies \<open>video-loaded\<close> to the container and arms one timer,
  due 5500 ms later, whose callback applies \<open>video-fully-loaded\<close>. With the start at 0
  and a \<open>play\<close> signal at 200 ms, the container has no marker at 1499 ms, has
  \<open>video-loaded\<close> from 1500 ms, still only that at 6999 ms, and both markers at 7000 ms.
\<close>

theorem reveal_then_settle:
  "brightenAndFadeOut (st\<lparr>container := Some cl\<rparr>) =
     st\<lparr>container := Some (classList_add ''video-loaded'' cl),
        effects := effects st @ [(now st, AddClass ''video-loaded'')],
        timers := timers st @ [\<lparr>tid = nextId st, due = now st + 5500, cb = SettleCb\<rparr>],
        nextId := Suc (nextId st)\<rparr> \<and>
   run_callback cfg SettleCb (st\<lparr>container := Some cl\<rparr>) =
     st\<lparr>container := Some (classList_add ''video-fully-loaded'' cl),
        effects := effects st @ [(now st, AddClass ''video-fully-loaded'')]\<rparr> \<and>
   map (\<lambda>t. effects (run CONFIG [ReadyResolved, Elapse 200, Play, Elapse t]
                       (started CONFIG desktop 0 [])))
     [1499, 1500, 6999, 7000] =
   [[],
    [(1500, AddClass ''video-loaded''), (1500, ClearTimeout 1)],
    [(1500, AddClass ''video-loaded''), (1500, ClearTimeout 1)],
    [(1500, AddClass ''video-loaded''), (1500, ClearTimeout 1),
     (7000, AddClass ''video-fully-loaded'')]] \<and>
   map (\<lambda>t. container (run CONFIG [ReadyResolved, Elapse 200, Play, Elapse t]
                         (started CONFIG desktop 0 [])))
     [1499, 1500, 6999, 7000] =
   [Some [], Some [''video-loaded''], Some [''video-loaded''],
    Some [''video-loaded'', ''video-fully-loaded'']]"
  using brightenAndFadeOut_container [where st = st and cl = cl]
    settle_container [where cfg = cfg and st = st and cl = cl]
    signal_at_200_effects signal_at_200_container
  by blast

theorem reveal_then_settle_witness:
  "timers (brightenAndFadeOut (fresh 1500 (Some []))) =
     [\<lparr>tid = 1, due = 7000, cb = SettleCb\<rparr>] \<and>
   container (brightenAndFadeOut (fresh 1500 (Some []))) = Some [''video-loaded''] \<and>
   container (run_callback CONFIG SettleCb (fresh 7000 (Some [''video-loaded'']))) =
     Some [''video-loaded'', ''video-fully-loaded'']"
proof -
  have a: "(fresh 1500 None)\<lparr>container := Some []\<rparr> = fresh 1500 (Some [])"
    and b: "(fresh 7000 None)\<lparr>container := Some [''video-loaded'']\<rparr> =
              fresh 7000 (Some [''video-loaded''])"
    by (simp_all add: fresh_def)
  note t = reveal_then_settle [where st = "fresh 1500 None" and cl = "[]" and cfg = CONFIG]
  note u = reveal_then_settle
    [where st = "fresh 7000 None" and cl = "[''video-loaded'']" and cfg = CONFIG]
  have "brightenAndFadeOut (fresh 1500 (Some [])) =
          (fresh 1500 None)\<lparr>container := Some (classList_add ''video-loaded'' []),
             effects := effects (fresh 1500 None) @ [(now (fresh 1500 None), AddClass ''video-loaded'')],
             timers := timers (fresh 1500 None) @
               [\<lparr>tid = nextId (fresh 1500 None), due = now (fresh 1500 None) + 5500, cb = SettleCb\<rparr>],
             nextId := Suc (nextId (fresh 1500 None))\<rparr>"
    using t unfolding a by blast
  moreover have "run_callback CONFIG SettleCb (fresh 7000 (Some [''video-loaded''])) =
          (fresh 7000 None)\<lparr>container := Some (classList_add ''video-fully-loaded'' [''video-loaded'']),
             effects := effects (fresh 7000 None) @
               [(now (fresh 7000 None), AddClass ''video-fully-loaded'')]\<rparr>"
    using u unfolding b by blast
  ultimately show ?thesis
    by (simp add: fresh_def classList_add_def)
qed

subsection \<open>The forced reveal of \<open>useFallbackMethod\<close>\<close>

definition no_api :: env where
  "no_api = \<lparr>hasIframe = True, vimeoLoaded = False, ctorThrows = False,
     prefersReducedMotion = False, readyStateLoading = False\<rparr>"


definition reduced_motion :: env where
  "reduced_motion = \<lparr>hasIframe = True, vimeoLoaded = True, ctorThrows = False,
     prefersReducedMotion = True, readyStateLoading = False\<rparr>"

lemma forced_started:
  assumes "hasIframe e" and "\<not> vimeoLoaded e \<or> ctorThrows e"
  shows "started cfg e s cl =
    (fresh s (Some cl))\<lparr>videoLoadStartTime := Some s,
       timers := [\<lparr>tid = 1, due = s + 3000, cb = ForcedCb\<rparr>], nextId := 2\<rparr>"
  using assms
  by (auto simp: started_def initVimeoPlayer_def fresh_def useFallbackMethod_def
      setTimeout_def Let_def)






subsection \<open>Reduced motion\<close>

definition idle :: "gate \<Rightarrow> bool" where
  "idle st \<longleftrightarrow> timers st = [] \<and> \<not> readyPending st \<and> \<not> listening st \<and> \<not> errListening st"

lemma idle_deliver:
  assumes "idle st" shows "\<exists>t. deliver cfg ev st = st\<lparr>now := t\<rparr>"
proof (cases ev)
  case (Elapse t)
  have "next_timer (Some t) (timers st) = None" using assms by (simp add: idle_def next_timer_def)
  then show ?thesis using Elapse by (auto simp: advance_done)
qed (use assms in \<open>auto simp: idle_def intro: exI [of _ "now st"]\<close>)

lemma idle_run:
  assumes "idle st" shows "\<exists>t. run cfg evs st = st\<lparr>now := t\<rparr>"
  using assms
proof (induction evs arbitrary: st rule: rev_induct)
  case Nil
  show ?case by (auto simp: run_def intro: exI [of _ "now st"])
next
  case (snoc ev evs)
  then obtain t where t: "run cfg evs st = st\<lparr>now := t\<rparr>" by blast
  have "idle (st\<lparr>now := t\<rparr>)" using snoc.prems by (simp add: idle_def)
  then obtain t' where "deliver cfg ev (st\<lparr>now := t\<rparr>) = st\<lparr>now := t\<rparr>\<lparr>now := t'\<rparr>"
    using idle_deliver by blast
  then have "run cfg (evs @ [ev]) st = st\<lparr>now := t'\<rparr>"
    using t by (simp add: run_def)
  then show ?case by blast
qed

lemma reduced_init:
  assumes "prefersReducedMotion e"
  shows "init cfg e (fresh t c) = addClass ''video-loaded'' (fresh t c)"
  using assms by (simp add: init_def checkUserPreferences_def)

lemma reduced_idle:
  "idle (addClass ''video-loaded'' (fresh t c))"
  by (simp add: idle_def addClass_def fresh_def split: option.splits)


lemma run_append: "run cfg (evs @ evs') st = run cfg evs' (run cfg evs st)"
  by (simp add: run_def)

text \<open>
  C7 as stated fails on the marker: with the reduced-motion preference set, \<open>init\<close>
  applies \<open>video-loaded\<close>, and \<open>video-fully-loaded\<close> is not applied.
\<close>

theorem reduced_motion_marker_is_video_loaded:
  "container (init CONFIG reduced_motion (fresh 0 (Some []))) = Some [''video-loaded''] \<and>
   \<not> hasClass ''video-fully-loaded'' (init CONFIG reduced_motion (fresh 0 (Some [])))"
  by (simp add: init_def checkUserPreferences_def reduced_motion_def fresh_def addClass_def
      classList_add_def hasClass_def classList_contains_def)

text \<open>
  C7, amended. With the reduced-motion preference set, \<open>init\<close> applies the
  \<open>video-loaded\<close> marker to the container (when there is one) synchronously and does
  nothing else: no timer is armed, no player is created, no listener is registered, and
  whatever events follow, the container keeps exactly that class list, so
  \<open>video-fully-loaded\<close> is never applied by the gate.
\<close>

theorem reduced_motion_bypass:
  assumes "prefersReducedMotion e"
  shows "init cfg e (fresh t c) = addClass ''video-loaded'' (fresh t c) \<and>
         (let st = run cfg evs (init cfg e (fresh t c)) in
            container st = map_option (classList_add ''video-loaded'') c \<and>
            timers st = [] \<and> \<not> player st \<and> fallbackTimer st = None \<and>
            videoLoadStartTime st = None \<and> \<not> domListener st \<and> \<not> visListener st \<and>
            effects st = (case c of None \<Rightarrow> [] | Some cl \<Rightarrow> [(t, AddClass ''video-loaded'')]))"
proof -
  let ?st0 = "addClass ''video-loaded'' (fresh t c)"
  have i: "init cfg e (fresh t c) = ?st0"
    using assms by (rule reduced_init)
  obtain t' where r: "run cfg evs ?st0 = ?st0\<lparr>now := t'\<rparr>"
    using idle_run [OF reduced_idle] by blast
  show ?thesis unfolding i r Let_def
    by (cases c) (simp_all add: addClass_def fresh_def)
qed

theorem reduced_motion_bypass_witness:
  "prefersReducedMotion reduced_motion \<and>
   container (run CONFIG [Elapse 10000] (init CONFIG reduced_motion (fresh 0 (Some [])))) =
     Some [''video-loaded''] \<and>
   timers (run CONFIG [Elapse 10000] (init CONFIG reduced_motion (fresh 0 (Some [])))) = [] \<and>
   \<not> player (run CONFIG [Elapse 10000] (init CONFIG reduced_motion (fresh 0 (Some []))))"
proof -
  have a: "prefersReducedMotion reduced_motion" by (simp add: reduced_motion_def)
  let ?st = "run CONFIG [Elapse 10000] (init CONFIG reduced_motion (fresh 0 (Some [])))"
  have "container ?st = map_option (classList_add ''video-loaded'') (Some []) \<and>
        timers ?st = [] \<and> \<not> player ?st"
    using reduced_motion_bypass [OF a, of CONFIG 0 "Some []" "[Elapse 10000]"]
    unfolding Let_def by blast
  then show ?thesis using a by (simp add: classList_add_def)
qed

subsection \<open>Cancelling the fallback timer\<close>

text \<open>
  \<open>cancels\<close> counts the \<open>clearTimeout\<close> calls made so far. The invariant: while the
  handle \<open>fallbackTimer\<close> is set no call has been made, at most one call is ever made,
  and a call has only been made once \<open>isVideoReady\<close> is set.
\<close>

fun isCancel :: "int \<times> effect \<Rightarrow> bool" where
  "isCancel (t, ClearTimeout i) = True"
| "isCancel (t, AddClass c) = False"

definition cancels :: "gate \<Rightarrow> nat" where
  "cancels st = length (filter isCancel (effects st))"

definition cancel_inv :: "gate \<Rightarrow> bool" where
  "cancel_inv st \<longleftrightarrow>
     (fallbackTimer st \<noteq> None \<longrightarrow> cancels st = 0) \<and> cancels st \<le> 1 \<and>
     (0 < cancels st \<longrightarrow> isVideoReady st)"

lemma cancel_inv_handleVideoReady:
  "cancel_inv st \<Longrightarrow> cancel_inv (handleVideoReady cfg st)"
  by (auto simp: cancel_inv_def cancels_def handleVideoReady_def setTimeout_def Let_def)

lemma cancel_inv_useFallbackMethod:
  "cancel_inv st \<Longrightarrow> cancel_inv (useFallbackMethod st)"
  by (simp add: cancel_inv_def cancels_def useFallbackMethod_def setTimeout_def)

lemma cancel_inv_frame:
  "cancel_inv (st\<lparr>now := t\<rparr>) = cancel_inv st"
  "cancel_inv (st\<lparr>readyPending := b\<rparr>) = cancel_inv st"
  "cancel_inv (st\<lparr>listening := b\<rparr>) = cancel_inv st"
  "cancel_inv (st\<lparr>timers := ts\<rparr>) = cancel_inv st"
  by (simp_all add: cancel_inv_def cancels_def)

lemma cancels_reveal:
  "cancels (run_callback cfg RevealCb st) =
     (case fallbackTimer st of None \<Rightarrow> cancels st | Some i \<Rightarrow> Suc (cancels st))"
  by (simp add: cancels_def brightenAndFadeOut_def setTimeout_def addClass_def
      clearFallbackTimeout_def clearTimeout_def split: option.splits)

lemma fallbackTimer_reveal: "fallbackTimer (run_callback cfg RevealCb st) = None"
  by (simp add: brightenAndFadeOut_def setTimeout_def addClass_def
      clearFallbackTimeout_def clearTimeout_def split: option.splits)

lemma isVideoReady_reveal: "isVideoReady (run_callback cfg RevealCb st)"
  by (simp add: brightenAndFadeOut_def setTimeout_def addClass_def
      clearFallbackTimeout_def clearTimeout_def split: option.splits)

lemma fallbackTimer_brighten: "fallbackTimer (brightenAndFadeOut st) = fallbackTimer st"
  by (simp add: brightenAndFadeOut_def setTimeout_def addClass_def split: option.splits)

lemma timers_reveal_cleared:
  assumes "fallbackTimer st = Some i" and "tm \<in> set (timers (run_callback cfg RevealCb st))"
  shows "tid tm \<noteq> i"
proof -
  let ?b = "brightenAndFadeOut (st\<lparr>isVideoReady := True\<rparr>)"
  have "fallbackTimer ?b = Some i"
    using assms(1) by (simp add: fallbackTimer_brighten)
  then have "timers (run_callback cfg RevealCb st) = filter (\<lambda>tm. tid tm \<noteq> i) (timers ?b)"
    by (simp add: clearFallbackTimeout_def clearTimeout_def)
  then show ?thesis using assms(2) by simp
qed

lemma cancel_inv_callback:
  assumes "cancel_inv st" shows "cancel_inv (run_callback cfg k st)"
proof (cases k)
  case RevealCb
  show ?thesis unfolding RevealCb cancel_inv_def
    using assms
    by (auto simp add: cancels_reveal fallbackTimer_reveal isVideoReady_reveal cancel_inv_def
        simp del: run_callback.simps split: option.splits)
next
  case SettleCb
  then show ?thesis using assms
    by (simp add: cancel_inv_def cancels_def addClass_def split: option.splits)
qed (use assms in \<open>simp_all add: cancel_inv_handleVideoReady\<close>)

lemma cancel_inv_fire: "cancel_inv st \<Longrightarrow> cancel_inv (fire cfg tm st)"
  unfolding fire_def by (rule cancel_inv_callback) (simp add: cancel_inv_frame)

lemma cancel_inv_advance: "cancel_inv st \<Longrightarrow> cancel_inv (advance cfg h st)"
  by (rule advance_invariant [where P = cancel_inv])
     (simp_all add: cancel_inv_fire cancel_inv_frame)

lemma cancel_inv_deliver: "cancel_inv st \<Longrightarrow> cancel_inv (deliver cfg ev st)"
  by (cases ev)
     (simp_all add: cancel_inv_handleVideoReady cancel_inv_useFallbackMethod
        cancel_inv_advance cancel_inv_frame)

lemma cancel_inv_run: "cancel_inv st \<Longrightarrow> cancel_inv (run cfg evs st)"
  by (rule run_invariant [where P = cancel_inv]) (simp_all add: cancel_inv_deliver)

lemma cancel_inv_started: "cancel_inv (started cfg e s cl)"
  by (simp add: started_def initVimeoPlayer_def fresh_def cancel_inv_def cancels_def Let_def
      useFallbackMethod_def setupFallbackTimeout_def setupEventListeners_def setTimeout_def)

lemma handleVideoReady_keeps_fallback:
  "fallbackTimer (handleVideoReady cfg st) = fallbackTimer st \<and>
   effects (handleVideoReady cfg st) = effects st \<and>
   set (timers st) \<subseteq> set (timers (handleVideoReady cfg st))"
  by (auto simp: handleVideoReady_def setTimeout_def Let_def)

lemma forced_after_reveal: "isVideoReady st \<Longrightarrow> run_callback cfg ForcedCb st = st"
  by simp


text \<open>
  C3 as stated fails: \<open>clearFallbackTimeout\<close> is called inside the delayed callback,
  not by \<open>handleVideoReady\<close>. With the start at 0 and a \<open>play\<close> signal at 200 ms, the
  reveal is armed (due at 1500 ms) and the fallback timer is still pending, its handle
  still set, and \<open>clearTimeout\<close> has not been called.
\<close>

theorem fallback_not_cancelled_at_scheduling:
  "timers (run CONFIG [ReadyResolved, Elapse 200, Play] (started CONFIG desktop 0 [])) =
     [\<lparr>tid = 1, due = 5000, cb = FallbackCb\<rparr>, \<lparr>tid = 2, due = 1500, cb = RevealCb\<rparr>] \<and>
   fallbackTimer (run CONFIG [ReadyResolved, Elapse 200, Play] (started CONFIG desktop 0 [])) =
     Some 1 \<and>
   effects (run CONFIG [ReadyResolved, Elapse 200, Play] (started CONFIG desktop 0 [])) = []"
  by (simp add: gate_eval)

text \<open>
  C3, amended. In every state \<open>st\<close> that the started gate reaches: scheduling the reveal
  (\<open>handleVideoReady\<close>) leaves the fallback handle, the pending timers and the log of
  calls as they are; the delayed reveal callback is what cancels, it clears the handle,
  and if the handle was set it makes the one \<open>clearTimeout\<close> call and no timer with
  that id stays pending; \<open>clearTimeout\<close> has been called at most once; and once it has
  been called \<open>isVideoReady\<close> is set, so the forced-reveal callback that a late
  \<open>error\<close> event arms does nothing.
\<close>

theorem fallback_cancelled_when_reveal_runs:
  assumes "st = run cfg evs (started cfg e s cl)"
  shows "fallbackTimer (handleVideoReady cfg st) = fallbackTimer st \<and>
         effects (handleVideoReady cfg st) = effects st \<and>
         set (timers st) \<subseteq> set (timers (handleVideoReady cfg st)) \<and>
         fallbackTimer (run_callback cfg RevealCb st) = None \<and>
         (\<forall>i. fallbackTimer st = Some i \<longrightarrow>
              cancels st = 0 \<and> cancels (run_callback cfg RevealCb st) = 1 \<and>
              (\<forall>tm \<in> set (timers (run_callback cfg RevealCb st)). tid tm \<noteq> i)) \<and>
         cancels st \<le> 1 \<and>
         (0 < cancels st \<longrightarrow> isVideoReady st \<and> run_callback cfg ForcedCb st = st)"
proof -
  have inv: "cancel_inv st"
    unfolding assms by (intro cancel_inv_run cancel_inv_started)
  have a: "\<forall>i. fallbackTimer st = Some i \<longrightarrow>
              cancels st = 0 \<and> cancels (run_callback cfg RevealCb st) = 1 \<and>
              (\<forall>tm \<in> set (timers (run_callback cfg RevealCb st)). tid tm \<noteq> i)"
  proof (intro allI impI)
    fix i assume i: "fallbackTimer st = Some i"
    then have z: "cancels st = 0" using inv by (simp add: cancel_inv_def)
    have "cancels (run_callback cfg RevealCb st) = 1"
      unfolding cancels_reveal using i z by simp
    then show "cancels st = 0 \<and> cancels (run_callback cfg RevealCb st) = 1 \<and>
              (\<forall>tm \<in> set (timers (run_callback cfg RevealCb st)). tid tm \<noteq> i)"
      using z timers_reveal_cleared [OF i] by blast
  qed
  have b: "cancels st \<le> 1" and c: "0 < cancels st \<longrightarrow> isVideoReady st"
    using inv by (simp_all add: cancel_inv_def)
  have d: "0 < cancels st \<longrightarrow> run_callback cfg ForcedCb st = st"
    using c by (simp add: forced_after_reveal)
  show ?thesis
    using handleVideoReady_keeps_fallback [of cfg st] fallbackTimer_reveal [of cfg st] a b c d
    by blast
qed

theorem fallback_cancelled_when_reveal_runs_witness:
  "fallbackTimer (run CONFIG [ReadyResolved, Elapse 200, Play] (started CONFIG desktop 0 [])) =
     Some 1 \<and>
   cancels (run CONFIG [ReadyResolved, Elapse 200, Play] (started CONFIG desktop 0 [])) = 0 \<and>
   cancels (run_callback CONFIG RevealCb
     (run CONFIG [ReadyResolved, Elapse 200, Play] (started CONFIG desktop 0 []))) = 1 \<and>
   0 < cancels (run CONFIG [ReadyResolved, Elapse 200, Play, Elapse 1500, PlayerError]
                  (started CONFIG desktop 0 [])) \<and>
   isVideoReady (run CONFIG [ReadyResolved, Elapse 200, Play, Elapse 1500, PlayerError]
                  (started CONFIG desktop 0 []))"
proof -
  let ?a = "run CONFIG [ReadyResolved, Elapse 200, Play] (started CONFIG desktop 0 [])"
  let ?b = "run CONFIG [ReadyResolved, Elapse 200, Play, Elapse 1500, PlayerError]
              (started CONFIG desktop 0 [])"
  have f: "fallbackTimer ?a = Some 1" by (simp add: gate_eval)
  have g: "0 < cancels ?b" by (simp add: gate_eval cancels_def)
  have "cancels ?a = 0 \<and> cancels (run_callback CONFIG RevealCb ?a) = 1"
    using fallback_cancelled_when_reveal_runs
      [OF refl, of CONFIG "[ReadyResolved, Elapse 200, Play]" desktop 0 "[]"] f
    by blast
  moreover have "isVideoReady ?b"
    using fallback_cancelled_when_reveal_runs
      [OF refl, of CONFIG "[ReadyResolved, Elapse 200, Play, Elapse 1500, PlayerError]" desktop
        0 "[]"] g
    by blast
  ultimately show ?thesis using f g by blast
qed

subsection \<open>Convergence\<close>

text \<open>
  \<open>applied c\<close> says that the marker \<open>c\<close> has been applied to the container,
  \<open>pending k\<close> that a timer with callback \<open>k\<close> is waiting, and
  \<open>settle_after_reveal\<close> that in the log of calls no \<open>video-fully-loaded\<close> comes before
  the first \<open>video-loaded\<close>.

  The invariant \<open>converging\<close>: the container exists; only the fallback timer carries the
  id stored in \<open>fallbackTimer\<close>, and that id is older than every id still to be handed
  out; the settle step only waits or has run after a reveal; and either the reveal has
  run (and then the settle step is waiting or has run), or a timer that leads to the
  reveal is waiting.
\<close>

fun settle_after_reveal :: "(int \<times> effect) list \<Rightarrow> bool" where
  "settle_after_reveal [] = True"
| "settle_after_reveal ((t, x) # xs) =
     (x \<noteq> AddClass ''video-fully-loaded'' \<and>
      (x = AddClass ''video-loaded'' \<or> settle_after_reveal xs))"

definition applied :: "string \<Rightarrow> gate \<Rightarrow> bool" where
  "applied c st = (AddClass c \<in> snd ` set (effects st))"

definition pending :: "callback \<Rightarrow> gate \<Rightarrow> bool" where
  "pending k st = (k \<in> cb ` set (timers st))"

definition converging :: "gate \<Rightarrow> bool" where
  "converging st \<longleftrightarrow>
     container st \<noteq> None \<and>
     (\<forall>tm \<in> set (timers st). fallbackTimer st = Some (tid tm) \<longrightarrow> cb tm = FallbackCb) \<and>
     (\<forall>i. fallbackTimer st = Some i \<longrightarrow> i < nextId st) \<and>
     settle_after_reveal (effects st) \<and>
     (pending SettleCb st \<longrightarrow> applied ''video-loaded'' st) \<and>
     (if isVideoReady st
      then applied ''video-loaded'' st \<and> hasClass ''video-loaded'' st \<and>
           (pending SettleCb st \<or>
            applied ''video-fully-loaded'' st \<and> hasClass ''video-fully-loaded'' st)
      else pending RevealCb st \<or> pending FallbackCb st \<or> pending ForcedCb st)"

lemma settle_after_reveal_append:
  "settle_after_reveal (xs @ ys) =
     (settle_after_reveal xs \<and>
      (AddClass ''video-loaded'' \<in> snd ` set xs \<or> settle_after_reveal ys))"
  by (induction xs) (auto simp: image_iff)

lemma hasClass_addClass:
  "container st \<noteq> None \<Longrightarrow> hasClass c (addClass d st) = (c = d \<or> hasClass c st)"
  by (auto simp: hasClass_def addClass_def classList_contains_def classList_add_def
      split: if_splits)

lemma pending_remove1:
  "k \<noteq> cb tm \<Longrightarrow> pending k (st\<lparr>timers := remove1 tm (timers st), now := t\<rparr>) = pending k st"
proof -
  assume k: "k \<noteq> cb tm"
  have "\<And>x. cb x = k \<Longrightarrow> x \<in> set (remove1 tm (timers st)) \<longleftrightarrow> x \<in> set (timers st)"
    using k by (metis in_set_remove1)
  then show ?thesis by (auto simp: pending_def image_iff)
qed

lemma converging_handleVideoReady:
  assumes "converging st" shows "converging (handleVideoReady cfg st)"
proof (cases "isVideoReady st")
  case True
  then show ?thesis using assms by (simp add: handleVideoReady_def)
next
  case False
  then show ?thesis using assms
    by (auto simp: converging_def handleVideoReady_def setTimeout_def Let_def pending_def
        applied_def hasClass_def)
qed

lemma converging_useFallbackMethod:
  assumes "converging st" shows "converging (useFallbackMethod st)"
  using assms
  by (auto simp: converging_def useFallbackMethod_def setTimeout_def pending_def
        applied_def hasClass_def)

lemma converging_frame:
  "converging (st\<lparr>now := t\<rparr>) = converging st"
  "converging (st\<lparr>readyPending := b\<rparr>) = converging st"
  "converging (st\<lparr>listening := b\<rparr>) = converging st"
  by (simp_all add: converging_def pending_def applied_def hasClass_def)


lemma converging_fire:
  assumes inv: "converging st" and mem: "tm \<in> set (timers st)"
  shows "converging (fire cfg tm st)"
proof -
  let ?st = "st\<lparr>timers := remove1 tm (timers st), now := max (now st) (due tm)\<rparr>"
  obtain cl where cl: "container st = Some cl"
    using inv by (auto simp: converging_def)
  have sub: "set (timers ?st) \<subseteq> set (timers st)"
    using set_remove1_subset [of tm "timers st"] by simp
  have ids: "\<forall>x \<in> set (timers ?st). fallbackTimer st = Some (tid x) \<longrightarrow> cb x = FallbackCb"
    using inv sub by (auto simp: converging_def)
  have lt: "\<forall>i. fallbackTimer st = Some i \<longrightarrow> i < nextId st"
    using inv by (simp add: converging_def)
  have sar: "settle_after_reveal (effects st)"
    using inv by (simp add: converging_def)
  have ps: "pending SettleCb ?st \<longrightarrow> applied ''video-loaded'' st"
    using inv sub by (auto simp: converging_def pending_def)
  show ?thesis
  proof (cases "cb tm")
    case RevealCb
    show ?thesis
      unfolding fire_def RevealCb
      using cl ids lt sar ps
      by (cases "fallbackTimer st")
         (auto simp: converging_def brightenAndFadeOut_def setTimeout_def addClass_def
            clearFallbackTimeout_def clearTimeout_def pending_def applied_def hasClass_def
            settle_after_reveal_append classList_contains_def classList_add_def image_iff)
  next
    case SettleCb
    have pl: "applied ''video-loaded'' st"
      using inv mem SettleCb by (force simp: converging_def pending_def)
    have keep: "\<And>k. k \<noteq> SettleCb \<Longrightarrow> pending k ?st = pending k st"
      using pending_remove1 [where tm = tm and st = st] SettleCb by simp
    have rdy: "isVideoReady st \<longrightarrow> hasClass ''video-loaded'' st"
      using inv by (auto simp: converging_def)
    have nrdy: "\<not> isVideoReady st \<longrightarrow>
        pending RevealCb ?st \<or> pending FallbackCb ?st \<or> pending ForcedCb ?st"
      using inv by (auto simp: converging_def keep)
    show ?thesis
      unfolding fire_def SettleCb
      using cl ids lt sar ps pl rdy nrdy
      by (auto simp: converging_def addClass_def pending_def applied_def hasClass_def
            settle_after_reveal_append classList_contains_def classList_add_def image_iff)
  next
    case FallbackCb
    have keep: "\<And>k. k \<noteq> FallbackCb \<Longrightarrow> pending k ?st = pending k st"
      using pending_remove1 [where tm = tm and st = st] FallbackCb by simp
    have c: "isVideoReady st \<Longrightarrow> converging ?st"
      using inv ids by (auto simp: converging_def keep applied_def hasClass_def)
    have d: "\<not> isVideoReady st \<Longrightarrow> converging (handleVideoReady cfg ?st)"
      using inv ids ps
      by (auto simp: converging_def handleVideoReady_def setTimeout_def Let_def pending_def
          applied_def hasClass_def)
    show ?thesis unfolding fire_def FallbackCb using c d by simp
  next
    case ForcedCb
    have keep: "\<And>k. k \<noteq> ForcedCb \<Longrightarrow> pending k ?st = pending k st"
      using pending_remove1 [where tm = tm and st = st] ForcedCb by simp
    have c: "isVideoReady st \<Longrightarrow> converging ?st"
      using inv ids by (auto simp: converging_def keep applied_def hasClass_def)
    have d: "\<not> isVideoReady st \<Longrightarrow> converging (handleVideoReady cfg ?st)"
      using inv ids ps
      by (auto simp: converging_def handleVideoReady_def setTimeout_def Let_def pending_def
          applied_def hasClass_def)
    show ?thesis unfolding fire_def ForcedCb using c d by simp
  qed
qed


lemma converging_advance: "converging st \<Longrightarrow> converging (advance cfg h st)"
  by (rule advance_invariant [where P = converging])
     (simp_all add: converging_fire converging_frame)

lemma converging_deliver: "converging st \<Longrightarrow> converging (deliver cfg ev st)"
  by (cases ev)
     (simp_all add: converging_handleVideoReady converging_useFallbackMethod
        converging_advance converging_frame)

lemma converging_run: "converging st \<Longrightarrow> converging (run cfg evs st)"
  by (rule run_invariant [where P = converging]) (simp_all add: converging_deliver)

lemma converging_started: "hasIframe e \<Longrightarrow> converging (started cfg e s cl)"
  by (simp add: started_def initVimeoPlayer_def fresh_def converging_def Let_def
      useFallbackMethod_def setupFallbackTimeout_def setupEventListeners_def setTimeout_def
      pending_def applied_def)

lemma earliest_None: "earliest ts = None \<longleftrightarrow> ts = []"
  by (cases ts) (auto split: option.splits)

lemma advance_drains: "timers (advance cfg None st) = []"
proof (induction cfg "None :: int option" st rule: advance.induct)
  case (1 cfg st)
  show ?case
  proof (cases "next_timer None (timers st)")
    case None
    then have "timers st = []"
      by (simp add: next_timer_def earliest_None split: option.splits)
    then show ?thesis using None by (simp add: advance_done)
  next
    case (Some tm)
    then show ?thesis using "1.hyps" by (simp add: advance_step [OF Some])
  qed
qed

lemma converging_drained:
  assumes "converging st" and "timers st = []"
  shows "isVideoReady st \<and> hasClass ''video-loaded'' st \<and> hasClass ''video-fully-loaded'' st \<and>
         applied ''video-loaded'' st \<and> applied ''video-fully-loaded'' st \<and>
         settle_after_reveal (effects st)"
  using assms by (auto simp: converging_def pending_def split: if_splits)

lemma earliest_min: "earliest ts = Some tm \<Longrightarrow> x \<in> set ts \<Longrightarrow> due tm \<le> due x"
  by (induction ts arbitrary: tm) (auto simp: earliest_None split: option.splits if_splits)

lemma next_timer_due: "next_timer (Some t) ts = Some tm \<Longrightarrow> due tm \<le> t"
  by (auto simp: next_timer_def split: option.splits if_splits)

lemma next_timer_none:
  assumes "next_timer (Some t) ts = None" and "x \<in> set ts"
  shows "t < due x"
proof (cases "earliest ts")
  case None
  then show ?thesis using assms(2) by (simp add: earliest_None)
next
  case (Some tm)
  then have "t < due tm"
    using assms(1) by (auto simp: next_timer_def split: if_splits)
  then show ?thesis using earliest_min [OF Some assms(2)] by simp
qed

lemma advance_invariant_next:
  assumes "\<And>tm st. P st \<Longrightarrow> next_timer h (timers st) = Some tm \<Longrightarrow> P (fire cfg tm st)"
    and "\<And>st t. P st \<Longrightarrow> h = Some t \<Longrightarrow> next_timer h (timers st) = None \<Longrightarrow>
           P (st\<lparr>now := max (now st) t\<rparr>)"
    and "P st"
  shows "P (advance cfg h st)"
  using assms
proof (induction cfg h st rule: advance.induct)
  case (1 cfg h st)
  note fire = "1.prems"(1) and clock = "1.prems"(2)
  show ?case
  proof (cases "next_timer h (timers st)")
    case None
    then show ?thesis using "1.prems"(3) clock by (cases h) (simp_all add: advance_done)
  next
    case (Some tm)
    have "P (fire cfg tm st)"
      using "1.prems"(3) Some by (rule fire)
    then have "P (advance cfg h (fire cfg tm st))" using Some fire clock by (intro "1.IH")
    then show ?thesis by (subst advance_step [OF Some])
  qed
qed

lemma advance_horizon: "x \<in> set (timers (advance cfg (Some t) st)) \<Longrightarrow> t < due x"
proof (induction cfg "Some t" st rule: advance.induct)
  case (1 cfg st)
  show ?case
  proof (cases "next_timer (Some t) (timers st)")
    case None
    then show ?thesis using "1.prems" next_timer_none [OF None] by (simp add: advance_done)
  next
    case (Some tm)
    then show ?thesis using "1.hyps" "1.prems" by (simp add: advance_step [OF Some])
  qed
qed

text \<open>
  \<open>due_by cfg s t\<close>: the clock has not passed \<open>t\<close>, the gate started at \<open>s\<close> and
  its minimum display time ends by \<open>t\<close>, and the reveal has run or a timer that leads
  to it is due by \<open>t\<close>.
\<close>

definition due_by :: "config \<Rightarrow> int \<Rightarrow> int \<Rightarrow> gate \<Rightarrow> bool" where
  "due_by cfg s t st \<longleftrightarrow>
     now st \<le> t \<and> videoLoadStartTime st = Some s \<and> s + MIN_DISPLAY_TIME cfg \<le> t \<and>
     (isVideoReady st \<or> (\<exists>tm \<in> set (timers st). cb tm \<noteq> SettleCb \<and> due tm \<le> t))"

lemma due_by_fire:
  assumes inv: "due_by cfg s t st" and nxt: "next_timer (Some t) (timers st) = Some tm"
  shows "due_by cfg s t (fire cfg tm st)"
proof -
  let ?st = "st\<lparr>timers := remove1 tm (timers st), now := max (now st) (due tm)\<rparr>"
  have d: "due tm \<le> t" using nxt by (rule next_timer_due)
  have n: "now ?st \<le> t" using inv d by (simp add: due_by_def)
  have keep: "isVideoReady st \<or>
      (cb tm = SettleCb \<longrightarrow> (\<exists>x \<in> set (timers ?st). cb x \<noteq> SettleCb \<and> due x \<le> t))"
  proof (cases "isVideoReady st")
    case False
    then obtain x where x: "x \<in> set (timers st)" "cb x \<noteq> SettleCb" "due x \<le> t"
      using inv by (auto simp: due_by_def)
    show ?thesis
    proof (intro disjI2 impI)
      assume "cb tm = SettleCb"
      then have "x \<noteq> tm" using x(2) by auto
      then have "x \<in> set (timers ?st)" using x(1) by simp
      then show "\<exists>x \<in> set (timers ?st). cb x \<noteq> SettleCb \<and> due x \<le> t"
        using x by blast
    qed
  qed simp
  show ?thesis
  proof (cases "cb tm")
    case RevealCb
    then show ?thesis using inv n
      by (simp add: due_by_def fire_def brightenAndFadeOut_def setTimeout_def addClass_def
          clearFallbackTimeout_def clearTimeout_def split: option.splits)
  next
    case SettleCb
    then show ?thesis using inv n keep
      by (auto simp: due_by_def fire_def addClass_def split: option.splits)
  next
    case FallbackCb
    then show ?thesis using inv n
      by (auto simp: due_by_def fire_def handleVideoReady_def setTimeout_def Let_def)
  next
    case ForcedCb
    then show ?thesis using inv n
      by (auto simp: due_by_def fire_def handleVideoReady_def setTimeout_def Let_def)
  qed
qed

lemma due_by_advance:
  assumes "due_by cfg s t st"
  shows "isVideoReady (advance cfg (Some t) st)"
proof -
  have "due_by cfg s t (advance cfg (Some t) st)"
    by (rule advance_invariant_next [where P = "due_by cfg s t"])
       (simp_all add: due_by_fire assms, simp add: due_by_def)
  then show ?thesis
    using advance_horizon [of _ cfg t st] by (fastforce simp: due_by_def)
qed

text \<open>
  Where a callback of the module can raise: \<open>brightenAndFadeOut\<close> and its settle
  callback read \<open>container.classList\<close>, a \<open>TypeError\<close> when the container is
  \<open>null\<close>; \<open>handleVideoReady\<close> only passes the container on. (\<open>addClass\<close> on a
  gate without container is the guarded call of \<open>checkUserPreferences\<close>.) The other
  operation that can raise, the \<open>Player\<close> constructor, is inside the \<open>try\<close> block of
  \<open>initVimeoPlayer\<close>, whose \<open>catch\<close> branch is the \<open>ctorThrows\<close> branch of the model.
\<close>

datatype error = TypeError

fun raises :: "callback \<Rightarrow> gate \<Rightarrow> error option" where
  "raises RevealCb st = (case container st of None \<Rightarrow> Some TypeError | Some cl \<Rightarrow> None)"
| "raises SettleCb st = (case container st of None \<Rightarrow> Some TypeError | Some cl \<Rightarrow> None)"
| "raises FallbackCb st = None"
| "raises ForcedCb st = None"

lemma listeners_fire:
  "errListening (fire cfg tm st) = errListening st \<and>
   readyPending (fire cfg tm st) = readyPending st"
  by (cases "cb tm")
     (simp_all add: fire_def brightenAndFadeOut_def setTimeout_def addClass_def
        clearFallbackTimeout_def clearTimeout_def handleVideoReady_def Let_def
        split: option.splits)

lemma listeners_advance:
  "errListening (advance cfg h st) = errListening st \<and>
   readyPending (advance cfg h st) = readyPending st"
  by (rule advance_invariant
        [where P = "\<lambda>x. errListening x = errListening st \<and> readyPending x = readyPending st"])
     (simp_all add: listeners_fire)

lemma errListening_deliver: "errListening st \<Longrightarrow> errListening (deliver cfg ev st)"
  by (cases ev)
     (simp_all add: listeners_advance handleVideoReady_def useFallbackMethod_def
        setTimeout_def Let_def)

lemma errListening_run: "errListening st \<Longrightarrow> errListening (run cfg evs st)"
  by (rule run_invariant [where P = errListening]) (simp_all add: errListening_deliver)

lemma working_started:
  assumes "hasIframe e" and "vimeoLoaded e" and "\<not> ctorThrows e"
  shows "started cfg e s cl =
    (fresh s (Some cl))\<lparr>player := True, videoLoadStartTime := Some s,
       fallbackTimer := Some 1,
       timers := [\<lparr>tid = 1, due = s + max 0 (FALLBACK_TIMEOUT cfg), cb = FallbackCb\<rparr>],
       nextId := 2, readyPending := True, errListening := True\<rparr>"
  using assms
  by (simp add: started_def initVimeoPlayer_def fresh_def setupFallbackTimeout_def
      setupEventListeners_def setTimeout_def Let_def)

lemma readyPending_deliver:
  assumes "readyPending st" and "ev \<noteq> ReadyResolved" and "ev \<noteq> ReadyRejected"
  shows "readyPending (deliver cfg ev st)"
  using assms
  by (cases ev)
     (simp_all add: listeners_advance handleVideoReady_def useFallbackMethod_def
        setTimeout_def Let_def)

lemma readyPending_run:
  assumes "readyPending st" and "ReadyResolved \<notin> set evs" and "ReadyRejected \<notin> set evs"
  shows "readyPending (run cfg evs st)"
  using assms
proof (induction evs rule: rev_induct)
  case Nil
  then show ?case by (simp add: run_def)
next
  case (snoc ev evs)
  then have "readyPending (run cfg evs st)" by simp
  then have "readyPending (deliver cfg ev (run cfg evs st))"
    using snoc.prems by (intro readyPending_deliver) auto
  then show ?case by (simp add: run_def)
qed

lemma applied_by_deadline:
  assumes "hasIframe e" and "st = run cfg evs (started cfg e s cl)"
    and "now st \<le> t" and "s + MIN_DISPLAY_TIME cfg \<le> t"
    and "\<exists>tm \<in> set (timers st). cb tm \<noteq> SettleCb \<and> due tm \<le> t"
  shows "isVideoReady (advance cfg (Some t) st) \<and>
         applied ''video-loaded'' (advance cfg (Some t) st)"
proof -
  have "min_display_inv cfg s st"
    unfolding assms(2) using assms(1) by (intro min_display_run min_display_started)
  then have "videoLoadStartTime st = Some s"
    by (simp add: min_display_inv_def)
  then have "due_by cfg s t st"
    using assms(3-5) by (simp add: due_by_def)
  then have r: "isVideoReady (advance cfg (Some t) st)"
    by (rule due_by_advance)
  have "converging (advance cfg (Some t) st)"
    unfolding assms(2) using assms(1)
    by (intro converging_advance converging_run converging_started)
  then show ?thesis using r by (simp add: converging_def)
qed

lemma no_callback_raises:
  assumes "tm \<in> set (timers (run cfg evs (initVimeoPlayer cfg e (fresh s c))))"
  shows "raises (cb tm) (run cfg evs (initVimeoPlayer cfg e (fresh s c))) = None"
proof (cases "hasIframe e \<and> c \<noteq> None")
  case True
  then obtain cl where c: "c = Some cl" by auto
  have "converging (run cfg evs (started cfg e s cl))"
    using True by (intro converging_run converging_started) simp
  then have "container (run cfg evs (initVimeoPlayer cfg e (fresh s c))) \<noteq> None"
    unfolding c started_def by (simp add: converging_def)
  then show ?thesis by (cases "cb tm") auto
next
  case False
  then have "initVimeoPlayer cfg e (fresh s c) = fresh s c"
    by (auto simp: initVimeoPlayer_def fresh_def)
  moreover have "idle (fresh s c)"
    by (simp add: idle_def fresh_def)
  ultimately obtain t where
    "run cfg evs (initVimeoPlayer cfg e (fresh s c)) = (fresh s c)\<lparr>now := t\<rparr>"
    using idle_run [of "fresh s c" cfg evs] by auto
  then show ?thesis using assms by (simp add: fresh_def)
qed

text \<open>
  C4. Let the gate start at \<open>s\<close> on a page that has the iframe and the container, and
  let \<open>st\<close> be the state after any sequence of events.

  \<^item> Every failure mode arms a recovery. With the Vimeo API absent or the \<open>Player\<close>
    constructor throwing (the exception is caught in \<open>initVimeoPlayer\<close>), the gate
    starts with the 3000 ms timer of \<open>useFallbackMethod\<close>. Otherwise it starts with
    the fallback timer, which covers the case that no ready signal ever arrives; in
    \<open>st\<close> an \<open>error\<close> event calls \<open>useFallbackMethod\<close>, and so does the rejection
    of the ready promise while the promise is unsettled; \<open>useFallbackMethod\<close> arms its
    timer 3000 ms from now.
  \<^item> The recovery is the same forced reveal: unless \<open>isVideoReady\<close> is set, the
    callbacks of both timers are \<open>handleVideoReady\<close>.
  \<^item> It reveals in time: if in \<open>st\<close> some timer other than a settle step is due by
    \<open>t\<close>, where \<open>t\<close> is neither in the past nor before \<open>s + MIN_DISPLAY_TIME\<close>,
    then when the clock reaches \<open>t\<close> the reveal has run and \<open>video-loaded\<close> has been
    applied. In particular this holds 3000 ms after an \<open>error\<close> event or a rejection.
  \<^item> It converges: when all timers pending in \<open>st\<close> have run, none is left,
    \<open>isVideoReady\<close> is set, the container carries \<open>video-loaded\<close> and
    \<open>video-fully-loaded\<close>, both applied by the gate, \<open>video-loaded\<close> first.
  \<^item> No error surfaces: on any page, with or without iframe and container, no pending
    callback of any reachable state raises.
\<close>

theorem gate_always_converges:
  assumes "hasIframe e" and "st = run cfg evs (started cfg e s cl)"
  shows
    "(\<not> vimeoLoaded e \<or> ctorThrows e \<longrightarrow>
        timers (started cfg e s cl) = [\<lparr>tid = 1, due = s + 3000, cb = ForcedCb\<rparr>]) \<and>
     (vimeoLoaded e \<and> \<not> ctorThrows e \<longrightarrow>
        timers (started cfg e s cl) =
          [\<lparr>tid = 1, due = s + max 0 (FALLBACK_TIMEOUT cfg), cb = FallbackCb\<rparr>] \<and>
        deliver cfg PlayerError st = useFallbackMethod st \<and>
        (\<forall>t. now st + 3000 \<le> t \<and> s + MIN_DISPLAY_TIME cfg \<le> t \<longrightarrow>
           applied ''video-loaded'' (advance cfg (Some t) (deliver cfg PlayerError st))) \<and>
        (ReadyResolved \<notin> set evs \<and> ReadyRejected \<notin> set evs \<longrightarrow>
           deliver cfg ReadyRejected st = useFallbackMethod (st\<lparr>readyPending := False\<rparr>) \<and>
           (\<forall>t. now st + 3000 \<le> t \<and> s + MIN_DISPLAY_TIME cfg \<le> t \<longrightarrow>
              applied ''video-loaded''
                (advance cfg (Some t) (deliver cfg ReadyRejected st))))) \<and>
     timers (useFallbackMethod st) =
       timers st @ [\<lparr>tid = nextId st, due = now st + 3000, cb = ForcedCb\<rparr>] \<and>
     (\<forall>st'. \<not> isVideoReady st' \<longrightarrow>
        run_callback cfg ForcedCb st' = handleVideoReady cfg st' \<and>
        run_callback cfg FallbackCb st' = handleVideoReady cfg st') \<and>
     (\<forall>t. now st \<le> t \<and> s + MIN_DISPLAY_TIME cfg \<le> t \<and>
          (\<exists>tm \<in> set (timers st). cb tm \<noteq> SettleCb \<and> due tm \<le> t) \<longrightarrow>
        isVideoReady (advance cfg (Some t) st) \<and>
        applied ''video-loaded'' (advance cfg (Some t) st)) \<and>
     timers (advance cfg None st) = [] \<and>
     isVideoReady (advance cfg None st) \<and>
     hasClass ''video-loaded'' (advance cfg None st) \<and>
     hasClass ''video-fully-loaded'' (advance cfg None st) \<and>
     applied ''video-loaded'' (advance cfg None st) \<and>
     applied ''video-fully-loaded'' (advance cfg None st) \<and>
     settle_after_reveal (effects (advance cfg None st)) \<and>
     (\<forall>e' c evs'. \<forall>tm \<in> set (timers (run cfg evs' (initVimeoPlayer cfg e' (fresh s c)))).
        raises (cb tm) (run cfg evs' (initVimeoPlayer cfg e' (fresh s c))) = None)"
proof -
  note h = assms(1)
  have forced: "\<not> vimeoLoaded e \<or> ctorThrows e \<longrightarrow>
        timers (started cfg e s cl) = [\<lparr>tid = 1, due = s + 3000, cb = ForcedCb\<rparr>]"
    using forced_started [OF h, of cfg s cl] by (auto simp: fresh_def)
  have ufm: "timers (useFallbackMethod x) =
       timers x @ [\<lparr>tid = nextId x, due = now x + 3000, cb = ForcedCb\<rparr>]" for x
    by (simp add: useFallbackMethod_def setTimeout_def)
  have deadline: "isVideoReady (advance cfg (Some t) x) \<and>
        applied ''video-loaded'' (advance cfg (Some t) x)"
    if "x = run cfg evs' (started cfg e s cl)" "now x \<le> t" "s + MIN_DISPLAY_TIME cfg \<le> t"
      "\<exists>tm \<in> set (timers x). cb tm \<noteq> SettleCb \<and> due tm \<le> t" for x evs' t
    using applied_by_deadline [OF h that] .
  have after: "applied ''video-loaded'' (advance cfg (Some t) (deliver cfg ev st))"
    if d: "deliver cfg ev st = useFallbackMethod y" and y: "now y = now st" "nextId y = nextId st"
      and t: "now st + 3000 \<le> t" "s + MIN_DISPLAY_TIME cfg \<le> t" for ev y t
  proof -
    let ?x = "deliver cfg ev st"
    have x: "?x = run cfg (evs @ [ev]) (started cfg e s cl)"
      by (simp add: assms(2) run_def)
    have n: "now ?x = now st"
      unfolding d using y by (simp add: useFallbackMethod_def setTimeout_def)
    have "\<lparr>tid = nextId y, due = now y + 3000, cb = ForcedCb\<rparr> \<in> set (timers ?x)"
      unfolding d ufm by simp
    then have "\<exists>tm \<in> set (timers ?x). cb tm \<noteq> SettleCb \<and> due tm \<le> t"
      using t(1) y(1) by (intro bexI [of _ "\<lparr>tid = nextId y, due = now y + 3000, cb = ForcedCb\<rparr>"]) simp_all
    then show ?thesis
      using deadline [OF x _ t(2)] n t(1) by simp
  qed
  have working: "vimeoLoaded e \<and> \<not> ctorThrows e \<longrightarrow>
        timers (started cfg e s cl) =
          [\<lparr>tid = 1, due = s + max 0 (FALLBACK_TIMEOUT cfg), cb = FallbackCb\<rparr>] \<and>
        deliver cfg PlayerError st = useFallbackMethod st \<and>
        (\<forall>t. now st + 3000 \<le> t \<and> s + MIN_DISPLAY_TIME cfg \<le> t \<longrightarrow>
           applied ''video-loaded'' (advance cfg (Some t) (deliver cfg PlayerError st))) \<and>
        (ReadyResolved \<notin> set evs \<and> ReadyRejected \<notin> set evs \<longrightarrow>
           deliver cfg ReadyRejected st = useFallbackMethod (st\<lparr>readyPending := False\<rparr>) \<and>
           (\<forall>t. now st + 3000 \<le> t \<and> s + MIN_DISPLAY_TIME cfg \<le> t \<longrightarrow>
              applied ''video-loaded''
                (advance cfg (Some t) (deliver cfg ReadyRejected st))))"
  proof (intro impI)
    assume w: "vimeoLoaded e \<and> \<not> ctorThrows e"
    note ws = working_started [OF h conjunct1 [OF w] conjunct2 [OF w], of cfg s cl]
    have a: "timers (started cfg e s cl) =
          [\<lparr>tid = 1, due = s + max 0 (FALLBACK_TIMEOUT cfg), cb = FallbackCb\<rparr>]"
      unfolding ws by simp
    have "errListening (started cfg e s cl)" unfolding ws by simp
    then have "errListening st" unfolding assms(2) by (rule errListening_run)
    then have b: "deliver cfg PlayerError st = useFallbackMethod st" by simp
    have c: "\<forall>t. now st + 3000 \<le> t \<and> s + MIN_DISPLAY_TIME cfg \<le> t \<longrightarrow>
           applied ''video-loaded'' (advance cfg (Some t) (deliver cfg PlayerError st))"
      using after [OF b] by simp
    have d: "ReadyResolved \<notin> set evs \<and> ReadyRejected \<notin> set evs \<longrightarrow>
           deliver cfg ReadyRejected st = useFallbackMethod (st\<lparr>readyPending := False\<rparr>) \<and>
           (\<forall>t. now st + 3000 \<le> t \<and> s + MIN_DISPLAY_TIME cfg \<le> t \<longrightarrow>
              applied ''video-loaded''
                (advance cfg (Some t) (deliver cfg ReadyRejected st)))"
    proof (intro impI)
      assume u: "ReadyResolved \<notin> set evs \<and> ReadyRejected \<notin> set evs"
      have "readyPending (started cfg e s cl)" unfolding ws by simp
      then have "readyPending st"
        unfolding assms(2) using u by (intro readyPending_run) simp_all
      then have r: "deliver cfg ReadyRejected st =
                      useFallbackMethod (st\<lparr>readyPending := False\<rparr>)"
        by simp
      show "deliver cfg ReadyRejected st = useFallbackMethod (st\<lparr>readyPending := False\<rparr>) \<and>
           (\<forall>t. now st + 3000 \<le> t \<and> s + MIN_DISPLAY_TIME cfg \<le> t \<longrightarrow>
              applied ''video-loaded''
                (advance cfg (Some t) (deliver cfg ReadyRejected st)))"
        using r after [OF r] by simp
    qed
    show "timers (started cfg e s cl) =
          [\<lparr>tid = 1, due = s + max 0 (FALLBACK_TIMEOUT cfg), cb = FallbackCb\<rparr>] \<and>
        deliver cfg PlayerError st = useFallbackMethod st \<and>
        (\<forall>t. now st + 3000 \<le> t \<and> s + MIN_DISPLAY_TIME cfg \<le> t \<longrightarrow>
           applied ''video-loaded'' (advance cfg (Some t) (deliver cfg PlayerError st))) \<and>
        (ReadyResolved \<notin> set evs \<and> ReadyRejected \<notin> set evs \<longrightarrow>
           deliver cfg ReadyRejected st = useFallbackMethod (st\<lparr>readyPending := False\<rparr>) \<and>
           (\<forall>t. now st + 3000 \<le> t \<and> s + MIN_DISPLAY_TIME cfg \<le> t \<longrightarrow>
              applied ''video-loaded''
                (advance cfg (Some t) (deliver cfg ReadyRejected st))))"
      using a b c d by blast
  qed
  have same: "\<forall>st'. \<not> isVideoReady st' \<longrightarrow>
        run_callback cfg ForcedCb st' = handleVideoReady cfg st' \<and>
        run_callback cfg FallbackCb st' = handleVideoReady cfg st'"
    by simp
  have by_t: "\<forall>t. now st \<le> t \<and> s + MIN_DISPLAY_TIME cfg \<le> t \<and>
          (\<exists>tm \<in> set (timers st). cb tm \<noteq> SettleCb \<and> due tm \<le> t) \<longrightarrow>
        isVideoReady (advance cfg (Some t) st) \<and>
        applied ''video-loaded'' (advance cfg (Some t) st)"
    using deadline [OF assms(2)] by blast
  have "converging (advance cfg None st)"
    unfolding assms(2) using h
    by (intro converging_advance converging_run converging_started)
  moreover have "timers (advance cfg None st) = []"
    by (rule advance_drains)
  ultimately have fin: "timers (advance cfg None st) = [] \<and>
     isVideoReady (advance cfg None st) \<and>
     hasClass ''video-loaded'' (advance cfg None st) \<and>
     hasClass ''video-fully-loaded'' (advance cfg None st) \<and>
     applied ''video-loaded'' (advance cfg None st) \<and>
     applied ''video-fully-loaded'' (advance cfg None st) \<and>
     settle_after_reveal (effects (advance cfg None st))"
    using converging_drained [of "advance cfg None st"] by blast
  have quiet: "\<forall>e' c evs'. \<forall>tm \<in> set (timers (run cfg evs' (initVimeoPlayer cfg e' (fresh s c)))).
        raises (cb tm) (run cfg evs' (initVimeoPlayer cfg e' (fresh s c))) = None"
    using no_callback_raises by blast
  show ?thesis
    using forced working ufm [of st] same by_t fin quiet by blast
qed

theorem gate_always_converges_witness:
  "hasIframe no_api \<and> \<not> vimeoLoaded no_api \<and>
   timers (started CONFIG no_api 0 []) = [\<lparr>tid = 1, due = 3000, cb = ForcedCb\<rparr>] \<and>
   applied ''video-loaded'' (advance CONFIG (Some 3000) (run CONFIG [] (started CONFIG no_api 0 []))) \<and>
   hasIframe desktop \<and> vimeoLoaded desktop \<and> \<not> ctorThrows desktop \<and>
   effects (advance CONFIG (Some 3099)
     (deliver CONFIG PlayerError
        (run CONFIG [ReadyResolved, Elapse 100] (started CONFIG desktop 0 [])))) = [] \<and>
   applied ''video-loaded'' (advance CONFIG (Some 3100)
     (deliver CONFIG PlayerError
        (run CONFIG [ReadyResolved, Elapse 100] (started CONFIG desktop 0 [])))) \<and>
   ReadyResolved \<notin> set [Elapse 100] \<and> ReadyRejected \<notin> set [Elapse 100] \<and>
   effects (advance CONFIG (Some 3099)
     (deliver CONFIG ReadyRejected (run CONFIG [Elapse 100] (started CONFIG desktop 0 [])))) = [] \<and>
   applied ''video-loaded'' (advance CONFIG (Some 3100)
     (deliver CONFIG ReadyRejected (run CONFIG [Elapse 100] (started CONFIG desktop 0 [])))) \<and>
   applied ''video-loaded''
     (advance CONFIG (Some 5000) (run CONFIG [] (started CONFIG desktop 0 []))) \<and>
   hasClass ''video-fully-loaded''
     (advance CONFIG None (run CONFIG [ReadyResolved, Elapse 100, PlayerError]
        (started CONFIG desktop 0 [])))"
proof -
  let ?n = "run CONFIG [] (started CONFIG no_api 0 [])"
  let ?e = "run CONFIG [ReadyResolved, Elapse 100] (started CONFIG desktop 0 [])"
  let ?r = "run CONFIG [Elapse 100] (started CONFIG desktop 0 [])"
  let ?d = "run CONFIG [] (started CONFIG desktop 0 [])"
  let ?c = "run CONFIG [ReadyResolved, Elapse 100, PlayerError] (started CONFIG desktop 0 [])"
  have a: "hasIframe no_api" and a': "\<not> vimeoLoaded no_api"
    by (simp_all add: no_api_def)
  have b: "hasIframe desktop" and b': "vimeoLoaded desktop" "\<not> ctorThrows desktop"
    by (simp_all add: desktop_def)
  have m: "0 + MIN_DISPLAY_TIME CONFIG \<le> 3000" "0 + MIN_DISPLAY_TIME CONFIG \<le> 3100"
    "0 + MIN_DISPLAY_TIME CONFIG \<le> 5000"
    by (simp_all add: CONFIG_def)
  note tn = gate_always_converges
    [where e = no_api and cfg = CONFIG and evs = "[]" and s = 0 and cl = "[]", OF a refl]
  note te = gate_always_converges
    [where e = desktop and cfg = CONFIG and evs = "[ReadyResolved, Elapse 100]" and s = 0 and cl = "[]", OF b refl]
  note tr = gate_always_converges
    [where e = desktop and cfg = CONFIG and evs = "[Elapse 100]" and s = 0 and cl = "[]", OF b refl]
  note td = gate_always_converges
    [where e = desktop and cfg = CONFIG and evs = "[]" and s = 0 and cl = "[]", OF b refl]
  note tc = gate_always_converges
    [where e = desktop and cfg = CONFIG and evs = "[ReadyResolved, Elapse 100, PlayerError]" and s = 0 and cl = "[]", OF b refl]
  have n1: "timers (started CONFIG no_api 0 []) = [\<lparr>tid = 1, due = 0 + 3000, cb = ForcedCb\<rparr>]"
    using tn a' by blast
  have nn: "now ?n \<le> 3000"
    and nt: "\<exists>tm \<in> set (timers ?n). cb tm \<noteq> SettleCb \<and> due tm \<le> 3000"
    by (simp_all add: gate_eval no_api_def)
  have n2: "applied ''video-loaded'' (advance CONFIG (Some 3000) ?n)"
    using tn nn nt m(1) by blast
  have en: "now ?e + 3000 \<le> 3100" by (simp add: gate_eval)
  have e1: "applied ''video-loaded'' (advance CONFIG (Some 3100) (deliver CONFIG PlayerError ?e))"
    using te b' en m(2) by blast
  have e0: "effects (advance CONFIG (Some 3099) (deliver CONFIG PlayerError ?e)) = []"
    by (simp add: gate_eval)
  have u: "ReadyResolved \<notin> set [Elapse 100]" "ReadyRejected \<notin> set [Elapse 100]"
    by simp_all
  have rn: "now ?r + 3000 \<le> 3100" by (simp add: gate_eval)
  have r1: "applied ''video-loaded'' (advance CONFIG (Some 3100) (deliver CONFIG ReadyRejected ?r))"
    using tr b' u rn m(2) by blast
  have r0: "effects (advance CONFIG (Some 3099) (deliver CONFIG ReadyRejected ?r)) = []"
    by (simp add: gate_eval)
  have dn: "now ?d \<le> 5000"
    and dt: "\<exists>tm \<in> set (timers ?d). cb tm \<noteq> SettleCb \<and> due tm \<le> 5000"
    by (simp_all add: gate_eval)
  have d1: "applied ''video-loaded'' (advance CONFIG (Some 5000) ?d)"
    using td dn dt m(3) by blast
  have c1: "hasClass ''video-fully-loaded'' (advance CONFIG None ?c)"
    using tc by blast
  show ?thesis
    using a a' n1 n2 b b' e0 e1 u r0 r1 d1 c1 by simp
qed

section \<open>Header scroll behaviour\<close>

text \<open>
  \<open>initHeaderScroll\<close> closes over the header element and \<open>lastScroll\<close>; its scroll
  listener is \<open>onScroll\<close>, applied to \<open>window.pageYOffset\<close>. Scroll positions are JS
  numbers that are only compared, so they are modelled as reals.
\<close>

record header =
  classes :: classList
  lastScroll :: real

definition scrollThreshold :: real where
  "scrollThreshold = 100"

definition initHeaderScroll :: "classList option \<Rightarrow> header option" where
  "initHeaderScroll el =
     (case el of None \<Rightarrow> None | Some cl \<Rightarrow> Some \<lparr>classes = cl, lastScroll = 0\<rparr>)"

definition onScroll :: "real \<Rightarrow> header \<Rightarrow> header" where
  "onScroll currentScroll h =
     (let cl1 = (if currentScroll > 50 then classList_add ''scrolled'' (classes h)
                 else classList_remove ''scrolled'' (classes h));
          cl2 = (if currentScroll > scrollThreshold then
                   (if currentScroll > lastScroll h \<and> \<not> classList_contains ''scroll-down'' cl1
                    then classList_remove ''scroll-up'' (classList_add ''scroll-down'' cl1)
                    else if currentScroll < lastScroll h \<and> classList_contains ''scroll-down'' cl1
                    then classList_remove ''scroll-down'' (classList_add ''scroll-up'' cl1)
                    else cl1)
                 else cl1)
      in \<lparr>classes = cl2, lastScroll = currentScroll\<rparr>)"

definition scrollEvents :: "real list \<Rightarrow> header \<Rightarrow> header" where
  "scrollEvents ys h = foldl (\<lambda>h y. onScroll y h) h ys"

definition both_directions :: "classList \<Rightarrow> bool" where
  "both_directions cl \<longleftrightarrow>
     classList_contains ''scroll-down'' cl \<and> classList_contains ''scroll-up'' cl"

lemma onScroll_not_both:
  "\<not> both_directions (classes h) \<Longrightarrow> \<not> both_directions (classes (onScroll y h))"
  by (auto simp: onScroll_def both_directions_def Let_def classList_contains_def
      classList_add_def classList_remove_def split: if_splits)

lemma onScroll_adds_down:
  "\<not> classList_contains ''scroll-down'' (classes h) \<Longrightarrow>
   classList_contains ''scroll-down'' (classes (onScroll y h)) \<Longrightarrow>
   \<not> classList_contains ''scroll-up'' (classes (onScroll y h))"
  by (auto simp: onScroll_def Let_def classList_contains_def
      classList_add_def classList_remove_def split: if_splits)

lemma onScroll_adds_up:
  "\<not> classList_contains ''scroll-up'' (classes h) \<Longrightarrow>
   classList_contains ''scroll-up'' (classes (onScroll y h)) \<Longrightarrow>
   \<not> classList_contains ''scroll-down'' (classes (onScroll y h))"
  by (auto simp: onScroll_def Let_def classList_contains_def
      classList_add_def classList_remove_def split: if_splits)

lemma scrollEvents_not_both:
  "\<not> both_directions (classes h) \<Longrightarrow> \<not> both_directions (classes (scrollEvents ys h))"
  unfolding scrollEvents_def
  by (induction ys arbitrary: h) (simp_all add: onScroll_not_both)

text \<open>
  C9. If the header element does not carry both \<open>scroll-down\<close> and \<open>scroll-up\<close> when
  \<open>initHeaderScroll\<close> runs, it does not carry both after any sequence of scroll events;
  and in every state of the header, a scroll event after which one of the two classes is
  newly present leaves the other one absent.
\<close>

theorem header_never_both_directions:
  assumes "\<not> both_directions cl" and "initHeaderScroll (Some cl) = Some h0"
  shows "\<not> both_directions (classes (scrollEvents ys h0)) \<and>
         (\<forall>h y. (\<not> classList_contains ''scroll-down'' (classes h) \<and>
                  classList_contains ''scroll-down'' (classes (onScroll y h)) \<longrightarrow>
                  \<not> classList_contains ''scroll-up'' (classes (onScroll y h))) \<and>
                 (\<not> classList_contains ''scroll-up'' (classes h) \<and>
                  classList_contains ''scroll-up'' (classes (onScroll y h)) \<longrightarrow>
                  \<not> classList_contains ''scroll-down'' (classes (onScroll y h))))"
proof -
  have "h0 = \<lparr>classes = cl, lastScroll = 0\<rparr>"
    using assms(2) by (simp add: initHeaderScroll_def)
  then have "\<not> both_directions (classes h0)"
    using assms(1) by simp
  then have "\<not> both_directions (classes (scrollEvents ys h0))"
    by (rule scrollEvents_not_both)
  then show ?thesis
    using onScroll_adds_down onScroll_adds_up by blast
qed

theorem header_never_both_directions_witness:
  "\<not> both_directions [''site-header''] \<and>
   initHeaderScroll (Some [''site-header'']) =
     Some \<lparr>classes = [''site-header''], lastScroll = 0\<rparr> \<and>
   classes (scrollEvents [120, 300, 200] \<lparr>classes = [''site-header''], lastScroll = 0\<rparr>) =
     [''site-header'', ''scrolled'', ''scroll-up''] \<and>
   \<not> both_directions
       (classes (scrollEvents [120, 300, 200] \<lparr>classes = [''site-header''], lastScroll = 0\<rparr>))"
proof -
  have a: "\<not> both_directions [''site-header'']"
    by (simp add: both_directions_def classList_contains_def)
  have b: "initHeaderScroll (Some [''site-header'']) =
             Some \<lparr>classes = [''site-header''], lastScroll = 0\<rparr>"
    by (simp add: initHeaderScroll_def)
  have c: "classes (scrollEvents [120, 300, 200] \<lparr>classes = [''site-header''], lastScroll = 0\<rparr>)
             = [''site-header'', ''scrolled'', ''scroll-up'']"
    by (simp add: scrollEvents_def onScroll_def scrollThreshold_def classList_add_def
        classList_remove_def classList_contains_def)
  show ?thesis
    using a b c header_never_both_directions [OF a b, of "[120, 300, 200]"] by blast
qed

section \<open>Number counters\<close>

text \<open>
  \<open>animateCounter\<close> reads the text of a counter element, and if it contains a number
  starts an interval whose callback (\<open>tick\<close>) counts up to it. The callback closes
  over \<open>target\<close>, \<open>targetNumber\<close>, \<open>increment\<close> and \<open>current\<close>; \<open>interval\<close> is
  \<open>None\<close> when no interval runs (none was started, or \<open>clearInterval\<close> was called).
\<close>

subsection \<open>Strings\<close>

text \<open>
  A JS string is a sequence of UTF-16 code units. \<open>trim\<close> removes the white space and
  line terminators of ECMAScript from both ends; \<open>/[^0-9]/\<close> keeps the code units
  \<open>0x30\<close> to \<open>0x39\<close>; \<open>0x2B\<close> is the plus sign. \<open>js\<close> writes a string of ASCII
  characters as code units.
\<close>

type_synonym jsstring = "nat list"

definition js :: "string \<Rightarrow> jsstring" where
  "js s = map of_char s"

definition isWhiteSpace :: "nat \<Rightarrow> bool" where
  "isWhiteSpace c \<longleftrightarrow>
     c \<in> set [0x09, 0x0A, 0x0B, 0x0C, 0x0D, 0x20, 0xA0, 0x1680, 0x2028, 0x2029, 0x202F,
              0x205F, 0x3000, 0xFEFF] \<or>
     (0x2000 \<le> c \<and> c \<le> 0x200A)"

definition trim :: "jsstring \<Rightarrow> jsstring" where
  "trim s = rev (dropWhile isWhiteSpace (rev (dropWhile isWhiteSpace s)))"

definition isDigit :: "nat \<Rightarrow> bool" where
  "isDigit c \<longleftrightarrow> 0x30 \<le> c \<and> c \<le> 0x39"

definition digitsOf :: "jsstring \<Rightarrow> jsstring" where
  "digitsOf s = filter isDigit s"

definition digitVal :: "nat \<Rightarrow> nat" where
  "digitVal c = c - 0x30"

subsection \<open>Numbers\<close>

text \<open>
  A JS number is an IEEE 754 binary64 value. The finite ones are the reals
  \<open>m * 2 ^ (e - 1074)\<close> with \<open>\<bar>m\<bar> < 2 ^ 53\<close> and \<open>0 \<le> e \<le> 2045\<close>; \<open>maxDouble\<close> is
  the largest, and \<open>huge\<close> is \<open>2 ^ 1024\<close>, the next value the format would have.
  Every operation returns the double nearest to the exact result, the one with the even
  mantissa when two are equally near (\<open>nearest\<close>), and \<open>Infinity\<close> from the midpoint
  of \<open>maxDouble\<close> and \<open>huge\<close> on (\<open>rnd\<close>). All numbers of \<open>animateCounter\<close> are
  non-negative, so \<open>rnd\<close> is only applied to non-negative reals, and the sign of zero
  and \<open>-Infinity\<close> are left out.

  \<open>parseInt\<close> is only applied to strings of decimal digits: the model reads the leading
  digits and rounds their value, \<open>NaN\<close> when there is none. (ECMAScript allows an
  implementation to replace the significant digits after the 20th by zeros before it
  rounds; the lemmas on termination use of the number read only that it is \<open>rnd x\<close>
  for \<open>x = 0\<close> or some \<open>x \<ge> 1\<close>, see \<open>counts_to\<close>.) \<open>toLocaleString\<close> depends
  on the locale of the browser and is a parameter of \<open>tick\<close>; \<open>en_US\<close> is the
  formatting of one locale, for concrete runs.
\<close>

definition emin :: nat where "emin = 1074"
definition emax :: nat where "emax = 2045"

definition doubles :: "real set" where
  "doubles = {real_of_int m * 2 ^ e / 2 ^ emin | m e. \<bar>m\<bar> < 2 ^ 53 \<and> e \<le> emax}"

definition huge :: real where
  "huge = 2 ^ 53 * 2 ^ emax / 2 ^ emin"

definition maxDouble :: real where
  "maxDouble = (2 ^ 53 - 1) * 2 ^ emax / 2 ^ emin"

definition roundDown :: "real \<Rightarrow> real" where
  "roundDown x = Max {d \<in> doubles. d \<le> x}"

definition roundUp :: "real \<Rightarrow> real" where
  "roundUp x = Min {d \<in> insert huge doubles. x \<le> d}"

definition evenMantissa :: "real \<Rightarrow> bool" where
  "evenMantissa d \<longleftrightarrow>
     (\<exists>m e. d = real_of_int m * 2 ^ e / 2 ^ emin \<and> even m \<and> \<bar>m\<bar> < 2 ^ 53 \<and> e \<le> emax \<and>
            (2 ^ 52 \<le> \<bar>m\<bar> \<or> e = 0))"

definition nearest :: "real \<Rightarrow> real" where
  "nearest x =
     (let lo = roundDown x; hi = roundUp x
      in if x - lo < hi - x then lo
         else if hi - x < x - lo then hi
         else if evenMantissa lo then lo else hi)"

datatype number = Finite real | Infinity | NaN

definition rnd :: "real \<Rightarrow> number" where
  "rnd x = (if (maxDouble + huge) / 2 \<le> x then Infinity else Finite (nearest x))"


fun jsAdd :: "number \<Rightarrow> number \<Rightarrow> number" where
  "jsAdd (Finite x) (Finite y) = rnd (x + y)"
| "jsAdd NaN y = NaN"
| "jsAdd x NaN = NaN"
| "jsAdd Infinity y = Infinity"
| "jsAdd x Infinity = Infinity"

fun jsDiv :: "number \<Rightarrow> number \<Rightarrow> number" where
  "jsDiv (Finite x) (Finite y) =
     (if y = 0 then (if x = 0 then NaN else Infinity) else rnd (x / y))"
| "jsDiv NaN y = NaN"
| "jsDiv x NaN = NaN"
| "jsDiv Infinity Infinity = NaN"
| "jsDiv Infinity (Finite y) = Infinity"
| "jsDiv (Finite x) Infinity = Finite 0"

fun jsGe :: "number \<Rightarrow> number \<Rightarrow> bool" where
  "jsGe (Finite x) (Finite y) = (y \<le> x)"
| "jsGe NaN y = False"
| "jsGe x NaN = False"
| "jsGe Infinity y = True"
| "jsGe (Finite x) Infinity = False"

definition isNaN :: "number \<Rightarrow> bool" where
  "isNaN n \<longleftrightarrow> n = NaN"

fun mathFloor :: "number \<Rightarrow> number" where
  "mathFloor (Finite x) = Finite (of_int \<lfloor>x\<rfloor>)"
| "mathFloor n = n"

definition parseInt :: "jsstring \<Rightarrow> number" where
  "parseInt s =
     (let ds = takeWhile isDigit s
      in if ds = [] then NaN
         else rnd (real (foldl (\<lambda>n c. 10 * n + digitVal c) 0 ds)))"

record closure =
  target :: jsstring
  targetNumber :: number
  increment :: number
  current :: number

record counter =
  textContent :: jsstring
  interval :: "closure option"

definition animateCounter :: "jsstring \<Rightarrow> counter" where
  "animateCounter txt =
     (let target = trim txt;
          isNumber = \<not> isNaN (parseInt (digitsOf target))
      in if \<not> isNumber then \<lparr>textContent = txt, interval = None\<rparr>
         else
           let targetNumber = parseInt (digitsOf target);
               duration = Finite 2000;
               increment = jsDiv targetNumber (jsDiv duration (Finite 16))
           in \<lparr>textContent = txt,
               interval = Some \<lparr>target = target, targetNumber = targetNumber,
                                increment = increment, current = Finite 0\<rparr>\<rparr>)"

definition tick :: "(number \<Rightarrow> jsstring) \<Rightarrow> counter \<Rightarrow> counter" where
  "tick toLocaleString c =
     (case interval c of
        None \<Rightarrow> c
      | Some k \<Rightarrow>
          let cur = jsAdd (current k) (increment k)
          in if jsGe cur (targetNumber k)
             then \<lparr>textContent = target k, interval = None\<rparr>
             else \<lparr>textContent = toLocaleString (mathFloor cur) @
                                  (if 0x2B \<in> set (target k) then [0x2B] else []),
                   interval = Some (k\<lparr>current := cur\<rparr>)\<rparr>)"

fun group3 :: "string \<Rightarrow> string" where
  "group3 (a # b # c # d # xs) = a # b # c # CHR '','' # group3 (d # xs)"
| "group3 xs = xs"

fun decimal :: "nat \<Rightarrow> string" where
  "decimal n =
     (if n < 10 then [''0123456789'' ! n]
      else decimal (n div 10) @ [''0123456789'' ! (n mod 10)])"

fun en_US :: "number \<Rightarrow> jsstring" where
  "en_US (Finite x) =
     js ((if x < 0 then ''-'' else []) @ rev (group3 (rev (decimal (nat \<bar>\<lfloor>x\<rfloor>\<bar>)))))"
| "en_US Infinity = [0x221E]"
| "en_US NaN = js ''NaN''"

subsection \<open>Rounding\<close>

lemma finite_doubles: "finite doubles"
proof -
  let ?f = "\<lambda>(m, e). real_of_int m * 2 ^ e / 2 ^ emin"
  let ?S = "{- (2 ^ 53) .. 2 ^ 53} \<times> {.. emax}"
  have "doubles \<subseteq> ?f ` ?S"
  proof
    fix d assume "d \<in> doubles"
    then obtain m e where d: "d = real_of_int m * 2 ^ e / 2 ^ emin"
      and m: "\<bar>m\<bar> < 2 ^ 53" and e: "e \<le> emax"
      by (auto simp: doubles_def)
    have "(m, e) \<in> ?S" using m e by auto
    moreover have "d = ?f (m, e)" using d by simp
    ultimately show "d \<in> ?f ` ?S" by (rule rev_image_eqI)
  qed
  then show ?thesis
    by (rule finite_subset) simp
qed

lemma doubleI: "\<bar>m\<bar> < 2 ^ 53 \<Longrightarrow> e \<le> emax \<Longrightarrow> real_of_int m * 2 ^ e / 2 ^ emin \<in> doubles"
  by (auto simp: doubles_def)

lemma nat_double: "n < 2 ^ 53 \<Longrightarrow> real n \<in> doubles"
proof -
  assume n: "n < 2 ^ 53"
  have "real_of_int (int n) * 2 ^ emin / 2 ^ emin \<in> doubles"
    using n by (intro doubleI) (simp_all add: emin_def emax_def)
  then show ?thesis by simp
qed

lemma zero_double: "0 \<in> doubles"
  using nat_double [of 0] by simp

lemma double_less_huge: assumes "d \<in> doubles" shows "d < huge"
proof -
  obtain m e where d: "d = real_of_int m * 2 ^ e / 2 ^ emin" and m: "\<bar>m\<bar> < 2 ^ 53" and e: "e \<le> emax"
    using assms by (auto simp: doubles_def)
  have "real_of_int m * 2 ^ e \<le> real_of_int \<bar>m\<bar> * 2 ^ e"
    by (intro mult_right_mono) simp_all
  also have "\<dots> < 2 ^ 53 * 2 ^ e"
    using m by (intro mult_strict_right_mono) (simp_all flip: of_int_abs)
  also have "\<dots> \<le> 2 ^ 53 * (2::real) ^ emax"
    using e by (intro mult_left_mono power_increasing) simp_all
  finally show ?thesis
    unfolding d huge_def by (simp add: divide_strict_right_mono)
qed

lemma roundDown_double: assumes "0 \<le> x" shows "roundDown x \<in> doubles"
  and roundDown_le: "roundDown x \<le> x"
  and roundDown_greatest: "d \<in> doubles \<Longrightarrow> d \<le> x \<Longrightarrow> d \<le> roundDown x"
proof -
  let ?A = "{d \<in> doubles. d \<le> x}"
  have f: "finite ?A" using finite_doubles by simp
  have n: "?A \<noteq> {}" using zero_double assms by auto
  have "Max ?A \<in> ?A" using f n by (rule Max_in)
  then show "roundDown x \<in> doubles" and "roundDown x \<le> x"
    by (simp_all add: roundDown_def)
  show "d \<in> doubles \<Longrightarrow> d \<le> x \<Longrightarrow> d \<le> roundDown x"
    unfolding roundDown_def using f by (intro Max_ge) simp_all
qed

lemma roundUp_in: assumes "x \<le> huge" shows "roundUp x \<in> insert huge doubles"
  and roundUp_ge: "x \<le> roundUp x"
  and roundUp_least: "d \<in> doubles \<Longrightarrow> x \<le> d \<Longrightarrow> roundUp x \<le> d"
proof -
  let ?B = "{d \<in> insert huge doubles. x \<le> d}"
  have f: "finite ?B" using finite_doubles by simp
  have n: "?B \<noteq> {}" using assms by auto
  have "Min ?B \<in> ?B" using f n by (rule Min_in)
  then show "roundUp x \<in> insert huge doubles" and "x \<le> roundUp x"
    by (simp_all add: roundUp_def)
  show "d \<in> doubles \<Longrightarrow> x \<le> d \<Longrightarrow> roundUp x \<le> d"
    unfolding roundUp_def using f by (intro Min_le) simp_all
qed

lemma nearest_cases: "nearest x = roundDown x \<or> nearest x = roundUp x"
  by (simp add: nearest_def Let_def)

lemma nearest_dist:
  "\<bar>nearest x - x\<bar> \<le> \<bar>roundDown x - x\<bar> \<and> \<bar>nearest x - x\<bar> \<le> \<bar>roundUp x - x\<bar>"
  if "roundDown x \<le> x" "x \<le> roundUp x"
  using that by (auto simp: nearest_def Let_def)

lemma nearest_closest:
  assumes "0 \<le> x" and "x \<le> huge" and "d \<in> doubles"
  shows "\<bar>nearest x - x\<bar> \<le> \<bar>d - x\<bar>"
proof -
  note lo = roundDown_le [OF assms(1)] and hi = roundUp_ge [OF assms(2)]
  note nd = nearest_dist [OF lo hi]
  show ?thesis
  proof (cases "d \<le> x")
    case True
    then have "d \<le> roundDown x" using assms(1,3) by (intro roundDown_greatest)
    then have "\<bar>roundDown x - x\<bar> \<le> \<bar>d - x\<bar>" using lo True by simp
    then show ?thesis using nd by linarith
  next
    case False
    then have "roundUp x \<le> d" using assms(2,3) by (intro roundUp_least) simp_all
    then have "\<bar>roundUp x - x\<bar> \<le> \<bar>d - x\<bar>" using hi False by simp
    then show ?thesis using nd by linarith
  qed
qed



lemma maxDouble_double: "maxDouble \<in> doubles"
proof -
  have "\<bar>2 ^ 53 - 1 :: int\<bar> < 2 ^ 53" by simp
  then have "real_of_int (2 ^ 53 - 1) * 2 ^ emax / 2 ^ emin \<in> doubles"
    by (rule doubleI) simp
  moreover have "real_of_int (2 ^ 53 - 1) = 2 ^ 53 - 1" by simp
  ultimately show ?thesis by (simp only: maxDouble_def)
qed

lemma huge_maxDouble: "huge = maxDouble + 2 ^ emax / 2 ^ emin"
  unfolding huge_def maxDouble_def by (simp add: algebra_simps diff_divide_distrib)


lemma maxDouble_less_huge: "maxDouble < huge"
  using maxDouble_double by (rule double_less_huge)

lemma nearest_double:
  assumes "0 \<le> x" and "x < (maxDouble + huge) / 2"
  shows "nearest x \<in> doubles"
proof -
  note mt = maxDouble_less_huge
  have xt: "x \<le> huge" using assms(2) mt by argo
  show ?thesis
  proof (cases "nearest x = roundDown x")
    case True
    then show ?thesis using roundDown_double [OF assms(1)] by simp
  next
    case False
    then have up: "nearest x = roundUp x" using nearest_cases by blast
    show ?thesis
    proof (cases "roundUp x = huge")
      case True
      have "\<bar>nearest x - x\<bar> \<le> \<bar>maxDouble - x\<bar>"
        using nearest_closest [OF assms(1) xt maxDouble_double] .
      then have "\<bar>huge - x\<bar> \<le> \<bar>maxDouble - x\<bar>"
        using up True by simp
      then have False using assms(2) mt xt by argo
      then show ?thesis ..
    next
      case False
      then show ?thesis using roundUp_in [OF xt] up by simp
    qed
  qed
qed

lemma nearest_id: assumes "d \<in> doubles" and "0 \<le> d" shows "nearest d = d"
proof -
  have "d \<le> huge" using double_less_huge [OF assms(1)] by simp
  then have "\<bar>nearest d - d\<bar> \<le> \<bar>d - d\<bar>"
    using assms by (intro nearest_closest)
  then show ?thesis by simp
qed


lemma double_le_maxDouble: assumes "d \<in> doubles" shows "d \<le> maxDouble"
proof -
  obtain m e where d: "d = real_of_int m * 2 ^ e / 2 ^ emin"
    and m: "\<bar>m\<bar> < 2 ^ 53" and e: "e \<le> emax"
    using assms by (auto simp: doubles_def)
  have "m \<le> 2 ^ 53 - 1" using m by simp
  then have "real_of_int m \<le> real_of_int (2 ^ 53 - 1)" by (simp only: of_int_le_iff)
  moreover have "real_of_int (2 ^ 53 - 1) = 2 ^ 53 - 1" by simp
  ultimately have m': "real_of_int m \<le> 2 ^ 53 - 1" by (simp only:)
  have "real_of_int m * 2 ^ e \<le> (2 ^ 53 - 1) * 2 ^ e"
    using m' by (intro mult_right_mono) simp_all
  also have "\<dots> \<le> (2 ^ 53 - 1) * (2::real) ^ emax"
    using e by (intro mult_left_mono power_increasing) simp_all
  finally show ?thesis
    unfolding d maxDouble_def by (simp add: divide_right_mono)
qed

lemma rnd_double: assumes "d \<in> doubles" and "0 \<le> d" shows "rnd d = Finite d"
proof -
  have "d \<le> maxDouble" using assms(1) by (rule double_le_maxDouble)
  then have "d < (maxDouble + huge) / 2" using maxDouble_less_huge by argo
  then show ?thesis using nearest_id [OF assms] by (simp add: rnd_def)
qed

lemma rnd_cases:
  assumes "0 \<le> x"
  obtains "rnd x = Infinity" | d where "rnd x = Finite d" "d \<in> doubles" "d = nearest x"
    "x < huge"
proof (cases "(maxDouble + huge) / 2 \<le> x")
  case True
  then show ?thesis using that(1) by (simp add: rnd_def)
next
  case False
  then have lt: "x < (maxDouble + huge) / 2" by simp
  then have "x < huge" using maxDouble_less_huge by argo
  then show ?thesis
    using that(2) [of "nearest x"] nearest_double [OF assms lt] False by (simp add: rnd_def)
qed


lemma pow_split: assumes "7 \<le> e" shows "(2::real) ^ e = 2 ^ (e - 7) * 128"
proof -
  have "(2::real) ^ ((e - 7) + 7) = 2 ^ (e - 7) * 2 ^ 7" by (rule power_add)
  moreover have "(e - 7) + 7 = e" using assms by simp
  ultimately show ?thesis by simp
qed

lemma double_ge_one_rep:
  assumes "d \<in> doubles" and "1 \<le> d"
  obtains m e where "d = real_of_int m * 2 ^ e / 2 ^ emin" "1 \<le> m" "m < 2 ^ 53" "e \<le> emax"
    "7 \<le> e"
proof -
  obtain m e where d: "d = real_of_int m * 2 ^ e / 2 ^ emin"
    and m: "\<bar>m\<bar> < 2 ^ 53" and e: "e \<le> emax"
    using assms(1) by (auto simp: doubles_def)
  have "0 < d" using assms(2) by simp
  then have pos: "0 < real_of_int m * 2 ^ e / 2 ^ emin" unfolding d .
  then have "0 < real_of_int m" by (simp add: zero_less_mult_iff zero_less_divide_iff)
  then have m1: "1 \<le> m" by simp
  have "7 \<le> e"
  proof (rule ccontr)
    assume "\<not> 7 \<le> e"
    then have e7: "e \<le> 7" by simp
    have "real_of_int m < 2 ^ 53" using m by simp
    then have "real_of_int m * 2 ^ e < 2 ^ 53 * 2 ^ e"
      by (intro mult_strict_right_mono) simp_all
    also have "\<dots> \<le> 2 ^ 53 * (2::real) ^ 7"
      using e7 by (intro mult_left_mono power_increasing) simp_all
    also have "\<dots> = 2 ^ 60" by (simp flip: power_add)
    also have "\<dots> \<le> (2::real) ^ emin"
      by (intro power_increasing) (simp_all add: emin_def)
    finally have "d < 1" unfolding d by simp
    then show False using assms(2) by simp
  qed
  then show ?thesis using that [OF d m1 _ e] m by simp
qed

lemma double_div_128:
  assumes "d \<in> doubles" and "1 \<le> d"
  shows "d / 128 \<in> doubles"
proof -
  obtain m e where d: "d = real_of_int m * 2 ^ e / 2 ^ emin"
    and m: "1 \<le> m" "m < 2 ^ 53" and e: "e \<le> emax" "7 \<le> e"
    using assms by (rule double_ge_one_rep)
  have "(2::real) ^ e = 2 ^ (e - 7) * 128"
    using e(2) by (rule pow_split)
  then have "d / 128 = real_of_int m * 2 ^ (e - 7) / 2 ^ emin"
    unfolding d by simp
  moreover have "real_of_int m * 2 ^ (e - 7) / 2 ^ emin \<in> doubles"
    using m e by (intro doubleI) simp_all
  ultimately show ?thesis by simp
qed

lemma grid_point:
  assumes t: "t \<in> doubles" "1 \<le> t" and z: "0 \<le> z" "z < 2 * t" "z < huge"
  obtains d where "d \<in> doubles" "d \<le> z" "z - d < t / 128"
proof -
  obtain m e where d: "t = real_of_int m * 2 ^ e / 2 ^ emin"
    and m: "1 \<le> m" "m < 2 ^ 53" and e: "e \<le> emax" "7 \<le> e"
    using t by (rule double_ge_one_rep)
  let ?K = "{k. k \<le> emax \<and> 2 ^ k / 2 ^ emin \<le> t / 128}"
  have fin: "finite ?K" by simp
  have "(2::real) ^ e = 2 ^ (e - 7) * 128"
    using e(2) by (rule pow_split)
  then have "t / 128 = real_of_int m * (2 ^ (e - 7) / 2 ^ emin)"
    unfolding d by simp
  moreover have "1 * (2 ^ (e - 7) / 2 ^ emin) \<le> real_of_int m * (2 ^ (e - 7) / (2::real) ^ emin)"
    using m(1) by (intro mult_right_mono) simp_all
  ultimately have "2 ^ (e - 7) / 2 ^ emin \<le> t / 128" by simp
  then have ne: "e - 7 \<in> ?K" using e(1) by simp
  define k where "k = Max ?K"
  have kK: "k \<in> ?K" unfolding k_def using fin ne by (intro Max_in) auto
  define g :: real where "g = 2 ^ k / 2 ^ emin"
  have g0: "0 < g" by (simp add: g_def)
  have gt: "g \<le> t / 128" using kK by (simp add: g_def)
  have zg: "z / g < 2 ^ 53"
  proof (cases "k = emax")
    case True
    then have "huge = 2 ^ 53 * g" by (simp add: huge_def g_def)
    then have "z < 2 ^ 53 * g" using z(3) by simp
    then show ?thesis using g0 by (simp add: pos_divide_less_eq)
  next
    case False
    then have s: "Suc k \<le> emax" using kK by simp
    have "Suc k \<notin> ?K"
    proof
      assume "Suc k \<in> ?K"
      then have "Suc k \<le> k" unfolding k_def using fin by (intro Max_ge)
      then show False by simp
    qed
    then have "t / 128 < 2 ^ Suc k / 2 ^ emin" using s by simp
    then have "t / 128 < 2 * g" by (simp add: g_def)
    then have "z < 512 * g" using z(2) by simp
    then have "z / g < 512" using g0 by (simp add: pos_divide_less_eq)
    then show ?thesis by simp
  qed
  define j where "j = \<lfloor>z / g\<rfloor>"
  have j0: "0 \<le> j" unfolding j_def using z(1) g0 by simp
  have "j < 2 ^ 53"
  proof -
    have "real_of_int j \<le> z / g" unfolding j_def by (rule of_int_floor_le)
    then have "real_of_int j < real_of_int (2 ^ 53)" using zg by simp
    then show ?thesis by (simp only: of_int_less_iff)
  qed
  then have "real_of_int j * 2 ^ k / 2 ^ emin \<in> doubles"
    using j0 kK by (intro doubleI) simp_all
  then have dD: "real_of_int j * g \<in> doubles" by (simp add: g_def)
  have "real_of_int j \<le> z / g" unfolding j_def by (rule of_int_floor_le)
  then have le: "real_of_int j * g \<le> z" using g0 by (simp add: pos_le_divide_eq)
  have "z / g < real_of_int j + 1" unfolding j_def by linarith
  then have "z < (real_of_int j + 1) * g" using g0 by (simp add: pos_divide_less_eq)
  then have "z - real_of_int j * g < g" by (simp add: algebra_simps)
  then have "z - real_of_int j * g < t / 128" using gt by simp
  then show ?thesis using that [OF dD le] by simp
qed

text \<open>
  Rounding is visible from \<open>2 ^ 53\<close> on, where the doubles are the even integers:
  \<open>2 ^ 53 + 1\<close> lies half way between two of them and goes to the one with the even
  mantissa, so \<open>parseInt\<close> of its sixteen digits is \<open>2 ^ 53\<close>.
\<close>

lemma Suc_emin_le_emax: "Suc emin \<le> emax"
  by (simp add: emin_def emax_def)

lemma two_53_double: "(2::real) ^ 53 \<in> doubles"
proof -
  have "real_of_int (2 ^ 52) * 2 ^ Suc emin / 2 ^ emin \<in> doubles"
    using Suc_emin_le_emax by (intro doubleI) simp_all
  then show ?thesis by simp
qed

lemma two_53_plus_2_double: "(2::real) ^ 53 + 2 \<in> doubles"
proof -
  have "real_of_int (2 ^ 52 + 1) * 2 ^ Suc emin / 2 ^ emin \<in> doubles"
    using Suc_emin_le_emax by (intro doubleI) simp_all
  then show ?thesis by simp
qed

lemma above_two_53:
  assumes "d \<in> doubles" and "2 ^ 53 < d"
  shows "2 ^ 53 + 2 \<le> d"
proof -
  obtain m e where d: "d = real_of_int m * 2 ^ e / 2 ^ emin"
    and m: "\<bar>m\<bar> < 2 ^ 53" and e: "e \<le> emax"
    using assms(1) by (auto simp: doubles_def)
  have m': "real_of_int m < 2 ^ 53" using m by simp
  have mpos: "0 < real_of_int m"
  proof -
    have "(0::real) < 2 ^ 53" by simp
    then have "0 < d" using assms(2) by (rule less_trans)
    then show ?thesis unfolding d by (simp add: zero_less_mult_iff zero_less_divide_iff)
  qed
  have "emin < e"
  proof (rule ccontr)
    assume "\<not> emin < e"
    then have "(2::real) ^ e \<le> 2 ^ emin" by (intro power_increasing) simp_all
    then have "real_of_int m * 2 ^ e \<le> real_of_int m * 2 ^ emin"
      using mpos by (intro mult_left_mono) simp_all
    then have "d \<le> real_of_int m" unfolding d by (simp add: pos_divide_le_eq)
    then show False using m' assms(2) by simp
  qed
  then obtain k where k: "e = Suc (emin + k)" by (metis less_iff_Suc_add)
  have dk: "d = 2 * real_of_int (m * 2 ^ k)"
    unfolding d k by (simp add: power_add)
  then have "real_of_int (2 ^ 52) < real_of_int (m * 2 ^ k)"
    using assms(2) by simp
  then have "2 ^ 52 < m * 2 ^ k" by (simp only: of_int_less_iff)
  then have "2 ^ 52 + 1 \<le> m * 2 ^ k" by simp
  then have "real_of_int (2 ^ 52 + 1) \<le> real_of_int (m * 2 ^ k)" by (simp only: of_int_le_iff)
  then show ?thesis unfolding dk by simp
qed

lemma rnd_two_53_plus_1: "rnd (2 ^ 53 + 1) = Finite (2 ^ 53)"
proof -
  let ?x = "(2::real) ^ 53 + 1"
  have lo: "roundDown ?x = 2 ^ 53"
    unfolding roundDown_def
  proof (rule Max_eqI)
    show "finite {d \<in> doubles. d \<le> ?x}" using finite_doubles by simp
    show "2 ^ 53 \<in> {d \<in> doubles. d \<le> ?x}" using two_53_double by simp
    fix d assume "d \<in> {d \<in> doubles. d \<le> ?x}"
    then show "d \<le> 2 ^ 53" using above_two_53 [of d] by fastforce
  qed
  have hi: "roundUp ?x = 2 ^ 53 + 2"
    unfolding roundUp_def
  proof (rule Min_eqI)
    show "finite {d \<in> insert huge doubles. ?x \<le> d}" using finite_doubles by simp
    show "2 ^ 53 + 2 \<in> {d \<in> insert huge doubles. ?x \<le> d}"
      using two_53_plus_2_double by simp
    fix d assume d: "d \<in> {d \<in> insert huge doubles. ?x \<le> d}"
    show "2 ^ 53 + 2 \<le> d"
    proof (cases "d = huge")
      case True
      then show ?thesis using double_less_huge [OF two_53_plus_2_double] by simp
    next
      case False
      then show ?thesis using d above_two_53 [of d] by simp
    qed
  qed
  have ev: "evenMantissa (2 ^ 53)"
    unfolding evenMantissa_def
  proof (intro exI conjI)
    show "(2::real) ^ 53 = real_of_int (2 ^ 52) * 2 ^ Suc emin / 2 ^ emin" by simp
    show "even (2 ^ 52 :: int)" by simp
    show "\<bar>2 ^ 52 :: int\<bar> < 2 ^ 53" by simp
    show "Suc emin \<le> emax" by (rule Suc_emin_le_emax)
    show "2 ^ 52 \<le> \<bar>2 ^ 52 :: int\<bar> \<or> Suc emin = 0" by simp
  qed
  have n: "nearest ?x = 2 ^ 53"
    unfolding nearest_def Let_def lo hi using ev by simp
  have "?x \<le> 2 ^ 53 + 2" by simp
  also have "\<dots> \<le> maxDouble" using two_53_plus_2_double by (rule double_le_maxDouble)
  finally have a: "?x \<le> maxDouble" .
  define x :: real where "x = 2 ^ 53 + 1"
  have "x \<le> maxDouble" using a by (simp add: x_def)
  then have "x < (maxDouble + huge) / 2" using maxDouble_less_huge by argo
  then have "\<not> (maxDouble + huge) / 2 \<le> ?x" by (simp add: x_def)
  then show ?thesis unfolding rnd_def using n by (simp only: if_False)
qed

lemma parseInt_rounds:
  "parseInt (js ''9007199254740993'') = Finite 9007199254740992"
proof -
  have "parseInt (js ''9007199254740993'') = rnd 9007199254740993"
    by (simp add: parseInt_def js_def isDigit_def digitVal_def)
  moreover have "rnd 9007199254740993 = Finite 9007199254740992"
    using rnd_two_53_plus_1 by simp
  ultimately show ?thesis by (simp only:)
qed

subsection \<open>The counter terminates\<close>

lemma tick_stopped:
  "tick f \<lparr>textContent = t, interval = None\<rparr> = \<lparr>textContent = t, interval = None\<rparr>"
  by (simp add: tick_def)

lemma ticks_stopped:
  "(tick f ^^ n) \<lparr>textContent = t, interval = None\<rparr> = \<lparr>textContent = t, interval = None\<rparr>"
  by (induction n) (simp_all add: tick_stopped)

lemma tick_continue:
  assumes "interval c = Some k" and "\<not> jsGe (jsAdd (current k) (increment k)) (targetNumber k)"
  shows "interval (tick f c) = Some (k\<lparr>current := jsAdd (current k) (increment k)\<rparr>)"
  using assms by (simp add: tick_def Let_def)

lemma tick_finish:
  assumes "interval c = Some k" and "jsGe (jsAdd (current k) (increment k)) (targetNumber k)"
  shows "tick f c = \<lparr>textContent = target k, interval = None\<rparr>"
  using assms by (simp add: tick_def Let_def)

lemma nearest_nonneg: assumes "0 \<le> x" and "x \<le> huge" shows "0 \<le> nearest x"
  using nearest_closest [OF assms zero_double] assms(1) by simp

lemma progress:
  assumes t: "t \<in> doubles" "1 \<le> t" and i: "t / 128 \<le> i" "i \<le> t"
    and c: "0 \<le> c" "c < t"
  obtains "jsGe (jsAdd (Finite c) (Finite i)) (Finite t)"
  | c' where "jsAdd (Finite c) (Finite i) = Finite c'" "c' \<in> doubles" "c < c'" "c' < t"
proof -
  have z0: "0 \<le> c + i" using c(1) i(1) t(2) by simp
  from z0 show ?thesis
  proof (cases "c + i" rule: rnd_cases)
    case 1
    then show ?thesis using that(1) by simp
  next
    case (2 c')
    show ?thesis
    proof (cases "t \<le> c'")
      case True
      then show ?thesis using that(1) 2(1) by simp
    next
      case False
      have "c + i < 2 * t" using c(2) i(2) by simp
      then obtain d where d: "d \<in> doubles" "d \<le> c + i" "c + i - d < t / 128"
        using grid_point [OF t z0 _ 2(4)] by blast
      have "\<bar>nearest (c + i) - (c + i)\<bar> \<le> \<bar>d - (c + i)\<bar>"
        using z0 2(4) d(1) by (intro nearest_closest) simp_all
      then have "c < c'" using d(2,3) i(1) 2(3) by simp
      then show ?thesis using that(2) [of c'] 2(1,2) False by simp
    qed
  qed
qed

lemma loop_terminates:
  assumes t: "t \<in> doubles" "1 \<le> t" and i: "t / 128 \<le> i" "i \<le> t"
    and c: "0 \<le> c" "c < t"
    and s: "interval s = Some \<lparr>target = tg, targetNumber = Finite t, increment = Finite i,
                               current = Finite c\<rparr>"
  shows "\<exists>n. (tick f ^^ n) s = \<lparr>textContent = tg, interval = None\<rparr>"
  using c s
proof (induction "card {d \<in> doubles. c < d \<and> d < t}" arbitrary: c s rule: less_induct)
  case less
  let ?k = "\<lparr>target = tg, targetNumber = Finite t, increment = Finite i, current = Finite c\<rparr>"
  note k = less.prems(3)
  from t i less.prems(1,2) show ?case
  proof (cases rule: progress)
    case 1
    then have "tick f s = \<lparr>textContent = tg, interval = None\<rparr>"
      using tick_finish [OF k, of f] by simp
    then have "(tick f ^^ 1) s = \<lparr>textContent = tg, interval = None\<rparr>" by simp
    then show ?thesis by blast
  next
    case (2 c')
    have "\<not> jsGe (jsAdd (current ?k) (increment ?k)) (targetNumber ?k)"
      using 2(1,4) by simp
    then have k': "interval (tick f s) =
        Some \<lparr>target = tg, targetNumber = Finite t, increment = Finite i, current = Finite c'\<rparr>"
      using tick_continue [OF k, of f] 2(1) by simp
    have "{d \<in> doubles. c' < d \<and> d < t} \<subset> {d \<in> doubles. c < d \<and> d < t}"
      using 2(2,3,4) by auto
    moreover have "finite {d \<in> doubles. c < d \<and> d < t}"
      using finite_doubles by simp
    ultimately have "card {d \<in> doubles. c' < d \<and> d < t} < card {d \<in> doubles. c < d \<and> d < t}"
      by (intro psubset_card_mono)
    moreover have "0 \<le> c'" using 2(3) less.prems(1) by simp
    ultimately obtain n where "(tick f ^^ n) (tick f s) = \<lparr>textContent = tg, interval = None\<rparr>"
      using less.hyps [of c' "tick f s"] 2(4) k' by blast
    then have "(tick f ^^ Suc n) s = \<lparr>textContent = tg, interval = None\<rparr>"
      by (simp only: funpow_Suc_right o_apply)
    then show ?thesis by blast
  qed
qed

lemma stays_finished:
  assumes "(tick f ^^ n) s = \<lparr>textContent = tg, interval = None\<rparr>" and "n \<le> m"
  shows "(tick f ^^ m) s = \<lparr>textContent = tg, interval = None\<rparr>"
proof -
  obtain d where m: "m = d + n"
    using assms(2) by (metis le_add_diff_inverse2)
  have "(tick f ^^ m) s = (tick f ^^ d) ((tick f ^^ n) s)"
    unfolding m by (simp only: funpow_add o_apply)
  then show ?thesis
    by (simp only: assms(1) ticks_stopped)
qed

lemma frames_125: "jsDiv (Finite 2000) (Finite 16) = Finite 125"
proof -
  have "real 125 \<in> doubles" by (rule nat_double) simp
  then have "rnd 125 = Finite 125" using rnd_double [of 125] by simp
  then show ?thesis by simp
qed

lemma first_tick_finishes:
  assumes "interval s = Some \<lparr>target = tg, targetNumber = T, increment = I,
                               current = Finite 0\<rparr>"
    and "jsGe (jsAdd (Finite 0) I) T"
  shows "tick f s = \<lparr>textContent = tg, interval = None\<rparr>"
  using tick_finish [OF assms(1), of f] assms(2) by simp

lemma rnd_zero: "rnd 0 = Finite 0"
  using rnd_double [OF zero_double] by simp

lemma parse_value:
  assumes "0 \<le> x"
  obtains "rnd x = Infinity"
  | d where "rnd x = Finite d" "d \<in> doubles" "0 \<le> d" "1 \<le> x \<Longrightarrow> 1 \<le> d"
proof (use assms in \<open>cases x rule: rnd_cases\<close>)
  case 1
  then show ?thesis using that(1) by simp
next
  case (2 d)
  have xh: "x \<le> huge" using 2(4) by simp
  have d0: "0 \<le> d" unfolding 2(3) using assms xh by (rule nearest_nonneg)
  have d1: "1 \<le> d" if "1 \<le> x"
  proof -
    have "real 1 \<in> doubles" by (rule nat_double) simp
    then have "\<bar>nearest x - x\<bar> \<le> \<bar>1 - x\<bar>"
      using nearest_closest [OF assms xh, of 1] by simp
    then show ?thesis using that 2(3) by simp
  qed
  show ?thesis using that(2) [OF 2(1,2) d0] d1 by blast
qed

lemma counts_to:
  assumes T: "T = rnd x" "0 \<le> x" "x = 0 \<or> 1 \<le> x"
    and s: "interval s = Some \<lparr>target = tg, targetNumber = T,
                               increment = jsDiv T (jsDiv (Finite 2000) (Finite 16)),
                               current = Finite 0\<rparr>"
  shows "\<exists>n. (tick f ^^ n) s = \<lparr>textContent = tg, interval = None\<rparr>"
proof -
  have one: "(tick f ^^ 1) s = \<lparr>textContent = tg, interval = None\<rparr>"
    if "jsGe (jsAdd (Finite 0) (jsDiv T (Finite 125))) T"
    using first_tick_finishes [OF s [unfolded frames_125] that, of f] by simp
  from T(2) show ?thesis
  proof (cases x rule: parse_value)
    case 1
    then have "jsGe (jsAdd (Finite 0) (jsDiv T (Finite 125))) T"
      using T(1) by simp
    then show ?thesis using one by blast
  next
    case (2 t)
    show ?thesis
    proof (cases "x = 0")
      case True
      then have "T = Finite 0" using T(1) rnd_zero by simp
      then have "jsGe (jsAdd (Finite 0) (jsDiv T (Finite 125))) T"
        using rnd_zero by simp
      then show ?thesis using one by blast
    next
      case False
      then have t1: "1 \<le> t" using T(3) 2(4) by blast
      have Tt: "T = Finite t" using T(1) 2(1) by simp
      have d0: "0 \<le> t / 125" using t1 by simp
      from d0 show ?thesis
      proof (cases "t / 125" rule: rnd_cases)
        case 1
        then have "jsGe (jsAdd (Finite 0) (jsDiv T (Finite 125))) T"
          using Tt by simp
        then show ?thesis using one by blast
      next
        case (2 i)
        have th: "t / 125 \<le> huge" using 2(4) by simp
        have "t / 128 \<in> doubles" using \<open>t \<in> doubles\<close> t1 by (rule double_div_128)
        then have "\<bar>nearest (t / 125) - t / 125\<bar> \<le> \<bar>t / 128 - t / 125\<bar>"
          using d0 th by (intro nearest_closest)
        then have lo: "t / 128 \<le> i" using 2(3) t1 by (simp add: abs_if split: if_splits)
        have "\<bar>nearest (t / 125) - t / 125\<bar> \<le> \<bar>t - t / 125\<bar>"
          using d0 th \<open>t \<in> doubles\<close> by (intro nearest_closest)
        then have hi: "i \<le> t" using 2(3) t1 by (simp add: abs_if split: if_splits)
        have "interval s = Some \<lparr>target = tg, targetNumber = Finite t, increment = Finite i,
                               current = Finite 0\<rparr>"
          using s [unfolded frames_125] Tt 2(1) by simp
        then show ?thesis
          using loop_terminates [OF \<open>t \<in> doubles\<close> t1 lo hi, of 0 s tg f] t1 by simp
      qed
    qed
  qed
qed

lemma rnd_not_NaN: "rnd x \<noteq> NaN"
  by (simp add: rnd_def)

lemma parseInt_digits:
  "parseInt (digitsOf s) =
     (if digitsOf s = [] then NaN
      else rnd (real (foldl (\<lambda>n c. 10 * n + digitVal c) 0 (digitsOf s))))"
proof -
  have tw: "takeWhile isDigit (digitsOf s) = digitsOf s"
    by (simp add: digitsOf_def)
  show ?thesis unfolding parseInt_def Let_def tw by simp
qed

lemma animateCounter_no_digit:
  assumes "digitsOf (trim txt) = []"
  shows "animateCounter txt = \<lparr>textContent = txt, interval = None\<rparr>"
proof -
  have "parseInt (digitsOf (trim txt)) = NaN"
    using assms parseInt_digits [of "trim txt"] by simp
  then show ?thesis by (simp add: animateCounter_def Let_def isNaN_def)
qed

lemma animateCounter_start:
  assumes "digitsOf (trim txt) \<noteq> []"
  shows "interval (animateCounter txt) =
           Some \<lparr>target = trim txt, targetNumber = parseInt (digitsOf (trim txt)),
                 increment = jsDiv (parseInt (digitsOf (trim txt)))
                               (jsDiv (Finite 2000) (Finite 16)),
                 current = Finite 0\<rparr>"
proof -
  have "parseInt (digitsOf (trim txt)) \<noteq> NaN"
    using assms parseInt_digits [of "trim txt"] rnd_not_NaN by simp
  then show ?thesis by (simp add: animateCounter_def Let_def isNaN_def)
qed

lemma animateCounter_terminates:
  assumes "digitsOf (trim txt) \<noteq> []"
  shows "\<exists>n. \<forall>m \<ge> n. (tick f ^^ m) (animateCounter txt) =
                        \<lparr>textContent = trim txt, interval = None\<rparr>"
proof -
  define N where "N = foldl (\<lambda>n c. 10 * n + digitVal c) 0 (digitsOf (trim txt))"
  have p: "parseInt (digitsOf (trim txt)) = rnd (real N)"
    using assms parseInt_digits [of "trim txt"] by (simp add: N_def)
  have "real N = 0 \<or> 1 \<le> real N" by (cases N) simp_all
  then obtain n where "(tick f ^^ n) (animateCounter txt) =
                         \<lparr>textContent = trim txt, interval = None\<rparr>"
    using counts_to [OF p _ _ animateCounter_start [OF assms], of f] by auto
  then have "\<forall>m \<ge> n. (tick f ^^ m) (animateCounter txt) =
                        \<lparr>textContent = trim txt, interval = None\<rparr>"
    using stays_finished by blast
  then show ?thesis by blast
qed

lemma animateCounter_zero:
  assumes "parseInt (digitsOf (trim txt)) = Finite 0"
  shows "tick f (animateCounter txt) = \<lparr>textContent = trim txt, interval = None\<rparr>"
proof -
  have ne: "digitsOf (trim txt) \<noteq> []"
    using assms parseInt_digits [of "trim txt"] by auto
  have "interval (animateCounter txt) =
           Some \<lparr>target = trim txt, targetNumber = Finite 0,
                 increment = jsDiv (Finite 0) (Finite 125), current = Finite 0\<rparr>"
    using animateCounter_start [OF ne] unfolding assms frames_125 .
  moreover have "jsGe (jsAdd (Finite 0) (jsDiv (Finite 0) (Finite 125))) (Finite 0)"
    by (simp add: rnd_zero)
  ultimately show ?thesis by (rule first_tick_finishes)
qed

text \<open>
  C10 as stated fails on the final text: the callback restores \<open>target\<close>, the trimmed
  text. An element whose text is \<open>0\<close> between two spaces extracts the number 0; its
  first tick clears the interval and sets the text to \<open>0\<close> without the spaces. The same
  happens to the text \<open>0\<close> followed by U+4EF6 and preceded by the ideographic space
  U+3000.
\<close>

theorem counter_final_text_is_trimmed:
  "tick en_US (animateCounter (js '' 0 '')) = \<lparr>textContent = js ''0'', interval = None\<rparr> \<and>
   js ''0'' \<noteq> js '' 0 '' \<and>
   tick en_US (animateCounter [0x3000, 0x30, 0x4EF6]) =
     \<lparr>textContent = [0x30, 0x4EF6], interval = None\<rparr>"
proof -
  have t1: "trim (js '' 0 '') = js ''0''" and t2: "trim [0x3000, 0x30, 0x4EF6] = [0x30, 0x4EF6]"
    by (simp_all add: trim_def isWhiteSpace_def js_def)
  have "parseInt (digitsOf (trim (js '' 0 ''))) = Finite 0"
    unfolding t1 by (simp add: parseInt_def digitsOf_def isDigit_def digitVal_def js_def rnd_zero)
  then have a: "tick en_US (animateCounter (js '' 0 '')) =
                  \<lparr>textContent = js ''0'', interval = None\<rparr>"
    using animateCounter_zero [of "js '' 0 ''" en_US] by (simp only: t1)
  have "parseInt (digitsOf (trim [0x3000, 0x30, 0x4EF6])) = Finite 0"
    unfolding t2 by (simp add: parseInt_def digitsOf_def isDigit_def digitVal_def rnd_zero)
  then have b: "tick en_US (animateCounter [0x3000, 0x30, 0x4EF6]) =
                  \<lparr>textContent = [0x30, 0x4EF6], interval = None\<rparr>"
    using animateCounter_zero [of "[0x3000, 0x30, 0x4EF6]" en_US] by (simp only: t2)
  have c: "js ''0'' \<noteq> js '' 0 ''" by (simp add: js_def)
  show ?thesis using a b c by blast
qed

text \<open>
  C10, amended. For every counter element whose trimmed text contains a digit, the
  animation terminates: from some tick on the interval is cleared and the text of the
  element is its original text with leading and trailing white space removed; when the
  number extracted is 0 the first tick already does this. An element whose text contains
  no digit is left unchanged and no interval is started. (\<open>f\<close> is the locale's number
  formatting, which only the intermediate texts depend on.)
\<close>

theorem counter_restores_trimmed_text:
  "(digitsOf (trim txt) \<noteq> [] \<longrightarrow>
      (\<exists>n. \<forall>m \<ge> n. (tick f ^^ m) (animateCounter txt) =
                        \<lparr>textContent = trim txt, interval = None\<rparr>)) \<and>
   (parseInt (digitsOf (trim txt)) = Finite 0 \<longrightarrow>
      tick f (animateCounter txt) = \<lparr>textContent = trim txt, interval = None\<rparr>) \<and>
   (digitsOf (trim txt) = [] \<longrightarrow>
      animateCounter txt = \<lparr>textContent = txt, interval = None\<rparr>)"
  using animateCounter_terminates [of "txt" f] animateCounter_zero [of "txt" f]
    animateCounter_no_digit [of "txt"]
  by blast

theorem counter_restores_trimmed_text_witness:
  "digitsOf (trim (js ''  1,200+  '')) \<noteq> [] \<and>
   (\<exists>n. \<forall>m \<ge> n. (tick en_US ^^ m) (animateCounter (js ''  1,200+  '')) =
                     \<lparr>textContent = js ''1,200+'', interval = None\<rparr>) \<and>
   parseInt (digitsOf (trim (js '' 0''))) = Finite 0 \<and>
   tick en_US (animateCounter (js '' 0'')) = \<lparr>textContent = js ''0'', interval = None\<rparr> \<and>
   digitsOf (trim (js ''n/a'')) = [] \<and>
   animateCounter (js ''n/a'') = \<lparr>textContent = js ''n/a'', interval = None\<rparr>"
proof -
  have t1: "trim (js ''  1,200+  '') = js ''1,200+''" and t2: "trim (js '' 0'') = js ''0''"
    and t3: "trim (js ''n/a'') = js ''n/a''"
    by (simp_all add: trim_def isWhiteSpace_def js_def)
  have a: "digitsOf (trim (js ''  1,200+  '')) \<noteq> []"
    unfolding t1 by (simp add: digitsOf_def isDigit_def js_def)
  have b: "parseInt (digitsOf (trim (js '' 0''))) = Finite 0"
    unfolding t2 by (simp add: parseInt_def digitsOf_def isDigit_def digitVal_def js_def rnd_zero)
  have c: "digitsOf (trim (js ''n/a'')) = []"
    unfolding t3 by (simp add: digitsOf_def isDigit_def js_def)
  have "\<exists>n. \<forall>m \<ge> n. (tick en_US ^^ m) (animateCounter (js ''  1,200+  '')) =
                     \<lparr>textContent = trim (js ''  1,200+  ''), interval = None\<rparr>"
    using counter_restores_trimmed_text [of "js ''  1,200+  ''" en_US] a by blast
  then have a': "\<exists>n. \<forall>m \<ge> n. (tick en_US ^^ m) (animateCounter (js ''  1,200+  '')) =
                     \<lparr>textContent = js ''1,200+'', interval = None\<rparr>"
    unfolding t1 .
  have "tick en_US (animateCounter (js '' 0'')) =
          \<lparr>textContent = trim (js '' 0''), interval = None\<rparr>"
    using counter_restores_trimmed_text [of "js '' 0''" en_US] b by blast
  then have b': "tick en_US (animateCounter (js '' 0'')) =
                   \<lparr>textContent = js ''0'', interval = None\<rparr>"
    unfolding t2 .
  have c': "animateCounter (js ''n/a'') = \<lparr>textContent = js ''n/a'', interval = None\<rparr>"
    using counter_restores_trimmed_text [of "js ''n/a''" en_US] c by blast
  show ?thesis using a a' b b' c c' by blast
qed

end
